theory Spec2Isabelle
  imports Complex_Main "HOL-Library.Log_Nat"
begin

section \<open>JavaScript numbers\<close>

text \<open>
  The values of the JavaScript number type: the finite numbers and the two zeros, the two
  infinities and NaN. \<open>Fin 0\<close> is the positive zero and \<open>NZero\<close> the negative one. A
  finite value is held as a rational; the arithmetic of \<^verbatim>\<open>server.js\<close> is that of IEEE
  binary64, so every operation below rounds its exact result to the nearest double, ties
  to even, with overflow to an infinity and underflow through the subnormal numbers to a
  zero of the right sign.
\<close>

datatype jsnum = Fin rat | NZero | PInf | NInf | NaN

subsection \<open>Rounding to a double\<close>

text \<open>The nearest integer, a tie going to the even one.\<close>

definition round_even :: "rat \<Rightarrow> int" where
  "round_even q =
     (let f = \<lfloor>q\<rfloor>; d = q - of_int f
      in if d < 1 / 2 then f else if 1 / 2 < d then f + 1 else if even f then f else f + 1)"

text \<open>The binary exponent of a positive rational \<open>a\<close>: the \<open>e\<close> with \<open>2 ^ e \<le> a < 2 ^ (e + 1)\<close>.\<close>

definition ilog2 :: "rat \<Rightarrow> int" where
  "ilog2 a =
     (case quotient_of a of
        (p, q) \<Rightarrow> (let d = bitlen p - bitlen q in if 2 powi d \<le> a then d else d - 1))"

text \<open>
  The exponent that a double near \<open>a\<close> has (not below that of the subnormal numbers), the
  distance between neighbouring doubles there, and the positive \<open>a\<close> rounded to a multiple
  of that distance: 53 significant bits.
\<close>

definition expo :: "rat \<Rightarrow> int" where
  "expo a = max (ilog2 a) (- 1022)"

definition ulp :: "rat \<Rightarrow> rat" where
  "ulp a = 2 powi (expo a - 52)"

definition round53 :: "rat \<Rightarrow> rat" where
  "round53 a = (if a \<le> 0 then 0 else of_int (round_even (a / ulp a)) * ulp a)"

text \<open>The double for a magnitude \<open>a\<close> and a sign: an infinity from \<open>2 ^ 1024\<close> on.\<close>

definition fl_signed :: "bool \<Rightarrow> rat \<Rightarrow> jsnum" where
  "fl_signed neg a =
     (let r = round53 a
      in if 2 powi 1024 \<le> r then (if neg then NInf else PInf)
         else if r = 0 then (if neg then NZero else Fin 0)
         else Fin (if neg then - r else r))"

text \<open>The double nearest to a rational; an exact zero is the positive zero.\<close>

definition fl :: "rat \<Rightarrow> jsnum" where
  "fl x = fl_signed (x < 0) \<bar>x\<bar>"

text \<open>The rationals that are doubles.\<close>

definition is_double :: "rat \<Rightarrow> bool" where
  "is_double x = (round53 \<bar>x\<bar> = \<bar>x\<bar> \<and> \<bar>x\<bar> < 2 powi 1024)"

subsection \<open>Arithmetic\<close>

fun is_neg :: "jsnum \<Rightarrow> bool" where
  "is_neg (Fin a) = (a < 0)"
| "is_neg NZero = True"
| "is_neg PInf = False"
| "is_neg NInf = True"
| "is_neg NaN = False"

fun is_fin :: "jsnum \<Rightarrow> bool" where
  "is_fin (Fin a) = True"
| "is_fin NZero = True"
| "is_fin PInf = False"
| "is_fin NInf = False"
| "is_fin NaN = False"

text \<open>The value and the magnitude of a finite number.\<close>

fun val :: "jsnum \<Rightarrow> rat" where
  "val (Fin a) = a"
| "val NZero = 0"
| "val PInf = 0"
| "val NInf = 0"
| "val NaN = 0"

definition mag :: "jsnum \<Rightarrow> rat" where
  "mag x = \<bar>val x\<bar>"

definition inf_of :: "bool \<Rightarrow> jsnum" where
  "inf_of neg = (if neg then NInf else PInf)"

definition zero_of :: "bool \<Rightarrow> jsnum" where
  "zero_of neg = (if neg then NZero else Fin 0)"

fun js_neg :: "jsnum \<Rightarrow> jsnum" where
  "js_neg (Fin a) = (if a = 0 then NZero else Fin (- a))"
| "js_neg NZero = Fin 0"
| "js_neg PInf = NInf"
| "js_neg NInf = PInf"
| "js_neg NaN = NaN"

text \<open>
  \<^verbatim>\<open>x + y\<close>: the sum of two zeros is the negative zero only when both are, and an exact
  sum of zero is otherwise the positive zero; opposite infinities give NaN.
\<close>

definition js_add :: "jsnum \<Rightarrow> jsnum \<Rightarrow> jsnum" where
  "js_add x y =
     (if x = NaN \<or> y = NaN then NaN
      else if is_fin x \<and> is_fin y then
        (if x = NZero \<and> y = NZero then NZero else fl (val x + val y))
      else if is_fin x then y
      else if is_fin y then x
      else if x = y then x else NaN)"

definition js_sub :: "jsnum \<Rightarrow> jsnum \<Rightarrow> jsnum" where
  "js_sub x y = js_add x (js_neg y)"

text \<open>\<^verbatim>\<open>x * y\<close>: the sign is that of the signs; zero times an infinity is NaN.\<close>

definition js_mul :: "jsnum \<Rightarrow> jsnum \<Rightarrow> jsnum" where
  "js_mul x y =
     (if x = NaN \<or> y = NaN then NaN
      else if is_fin x \<and> is_fin y then fl_signed (is_neg x \<noteq> is_neg y) (mag x * mag y)
      else if (is_fin x \<and> mag x = 0) \<or> (is_fin y \<and> mag y = 0) then NaN
      else inf_of (is_neg x \<noteq> is_neg y))"

text \<open>
  \<^verbatim>\<open>x / y\<close>: a non-zero number over a zero is an infinity with the sign of the signs, zero
  over zero and an infinity over an infinity are NaN, a finite number over an infinity is
  a zero.
\<close>

definition js_div :: "jsnum \<Rightarrow> jsnum \<Rightarrow> jsnum" where
  "js_div x y =
     (if x = NaN \<or> y = NaN then NaN
      else if is_fin x \<and> is_fin y then
        (if mag y = 0 then (if mag x = 0 then NaN else inf_of (is_neg x \<noteq> is_neg y))
         else fl_signed (is_neg x \<noteq> is_neg y) (mag x / mag y))
      else if is_fin x then zero_of (is_neg x \<noteq> is_neg y)
      else if is_fin y then inf_of (is_neg x \<noteq> is_neg y)
      else NaN)"

text \<open>\<^verbatim>\<open>Math.floor\<close>: the zeros, the infinities and NaN are returned as they are.\<close>

fun js_floor :: "jsnum \<Rightarrow> jsnum" where
  "js_floor (Fin a) = Fin (of_int \<lfloor>a\<rfloor>)"
| "js_floor NZero = NZero"
| "js_floor PInf = PInf"
| "js_floor NInf = NInf"
| "js_floor NaN = NaN"

text \<open>The comparison \<^verbatim>\<open>x < y\<close>: false as soon as one side is NaN; the zeros are equal.\<close>

fun js_lt :: "jsnum \<Rightarrow> jsnum \<Rightarrow> bool" where
  "js_lt NaN y = False"
| "js_lt x NaN = False"
| "js_lt PInf y = False"
| "js_lt x NInf = False"
| "js_lt NInf y = True"
| "js_lt x PInf = True"
| "js_lt x y = (val x < val y)"

text \<open>\<^verbatim>\<open>x <= y\<close>, used to compare progress values.\<close>

fun js_le :: "jsnum \<Rightarrow> jsnum \<Rightarrow> bool" where
  "js_le NaN y = False"
| "js_le x NaN = False"
| "js_le NInf y = True"
| "js_le x PInf = True"
| "js_le PInf y = False"
| "js_le x NInf = False"
| "js_le x y = (val x \<le> val y)"

text \<open>
  \<^verbatim>\<open>Math.max\<close> of two numbers: NaN as soon as one argument is NaN, and the positive zero
  is the larger zero.
\<close>

definition js_max :: "jsnum \<Rightarrow> jsnum \<Rightarrow> jsnum" where
  "js_max x y =
     (if x = NaN \<or> y = NaN then NaN
      else if js_lt x y then y
      else if js_lt y x then x
      else if x = NZero then y else x)"

text \<open>A number is falsy when it is a zero or NaN.\<close>

fun js_truthy_num :: "jsnum \<Rightarrow> bool" where
  "js_truthy_num (Fin a) = (a \<noteq> 0)"
| "js_truthy_num NZero = False"
| "js_truthy_num PInf = True"
| "js_truthy_num NInf = True"
| "js_truthy_num NaN = False"

text \<open>\<^verbatim>\<open>Number.isInteger\<close>.\<close>

fun js_is_integer :: "jsnum \<Rightarrow> bool" where
  "js_is_integer (Fin a) = (of_int \<lfloor>a\<rfloor> = a)"
| "js_is_integer NZero = True"
| "js_is_integer PInf = False"
| "js_is_integer NInf = False"
| "js_is_integer NaN = False"

section \<open>JavaScript strings\<close>

text \<open>
  Strings are lists of 8-bit characters, standing for the code units below 256. Among
  them the white space that \<^verbatim>\<open>trim\<close>, \<^verbatim>\<open>Number\<close> and \<^verbatim>\<open>parseInt\<close> strip is tab, line
  feed, vertical tab, form feed, carriage return, space and the no-break space.
\<close>

definition is_ws :: "char \<Rightarrow> bool" where
  "is_ws c = ((of_char c :: nat) \<in> {9, 10, 11, 12, 13, 32, 160})"

definition js_trim :: "string \<Rightarrow> string" where
  "js_trim s = rev (dropWhile is_ws (rev (dropWhile is_ws s)))"

text \<open>\<^verbatim>\<open>s.split(c)\<close> for a one-character separator: the empty string gives one empty part.\<close>

fun split_on :: "char \<Rightarrow> string \<Rightarrow> string list" where
  "split_on c [] = [[]]"
| "split_on c (x # xs) =
     (if x = c then [] # split_on c xs
      else (case split_on c xs of
              [] \<Rightarrow> [[x]]
            | y # ys \<Rightarrow> (x # y) # ys))"

text \<open>The value of a character as a digit in a radix up to 36, if it is one.\<close>

definition digit_of :: "nat \<Rightarrow> char \<Rightarrow> nat option" where
  "digit_of radix c =
     (let n = (of_char c :: nat);
          v = (if 48 \<le> n \<and> n \<le> 57 then Some (n - 48)
               else if 97 \<le> n \<and> n \<le> 122 then Some (n - 87)
               else if 65 \<le> n \<and> n \<le> 90 then Some (n - 55)
               else None)
      in case v of
           None \<Rightarrow> None
         | Some k \<Rightarrow> (if k < radix then Some k else None))"

definition is_digit_in :: "nat \<Rightarrow> char \<Rightarrow> bool" where
  "is_digit_in radix c = (digit_of radix c \<noteq> None)"

definition digits_value :: "nat \<Rightarrow> string \<Rightarrow> nat" where
  "digits_value radix ds =
     foldl (\<lambda>acc c. acc * radix + (case digit_of radix c of None \<Rightarrow> 0 | Some k \<Rightarrow> k)) 0 ds"

text \<open>
  \<^verbatim>\<open>Number(s)\<close> on a string, following the StringNumericLiteral grammar: white space is
  trimmed, the empty string is 0, a literal with prefix \<^verbatim>\<open>0x\<close>, \<^verbatim>\<open>0o\<close> or \<^verbatim>\<open>0b\<close> is read
  in its radix (no sign allowed), and otherwise an optional sign is followed by
  \<^verbatim>\<open>Infinity\<close> or by a decimal literal with optional fraction and exponent. Everything
  else is NaN.
\<close>

definition radix_literal :: "nat \<Rightarrow> string \<Rightarrow> jsnum" where
  "radix_literal radix ds =
     (if ds \<noteq> [] \<and> list_all (is_digit_in radix) ds
      then fl (of_nat (digits_value radix ds)) else NaN)"

text \<open>The exponent part: absent, or \<^verbatim>\<open>e\<close>, an optional sign and at least one digit.\<close>

definition exponent_part :: "string \<Rightarrow> (bool \<times> nat) option" where
  "exponent_part r =
     (case r of
        [] \<Rightarrow> Some (False, 0)
      | c # r' \<Rightarrow>
          (if c = CHR ''e'' \<or> c = CHR ''E'' then
             (let (neg, ds) = (case r' of
                                 [] \<Rightarrow> (False, [])
                               | s # r'' \<Rightarrow> (if s = CHR ''-'' then (True, r'')
                                               else if s = CHR ''+'' then (False, r'')
                                               else (False, r')))
              in if ds \<noteq> [] \<and> list_all (is_digit_in 10) ds
                 then Some (neg, digits_value 10 ds) else None)
           else None))"

definition decimal_literal :: "string \<Rightarrow> jsnum" where
  "decimal_literal u =
     (let ip = takeWhile (is_digit_in 10) u;
          r1 = dropWhile (is_digit_in 10) u;
          (fp, r2) = (case r1 of
                        [] \<Rightarrow> ([], r1)
                      | c # r \<Rightarrow> (if c = CHR ''.''
                                   then (takeWhile (is_digit_in 10) r, dropWhile (is_digit_in 10) r)
                                   else ([], r1)))
      in if ip = [] \<and> fp = [] then NaN
         else (case exponent_part r2 of
                 None \<Rightarrow> NaN
               | Some (neg, ex) \<Rightarrow>
                   (let m = (of_nat (digits_value 10 ip) :: rat)
                              + of_nat (digits_value 10 fp) / 10 ^ length fp
                    in fl (if neg then m / 10 ^ ex else m * 10 ^ ex))))"

definition unsigned_literal :: "string \<Rightarrow> jsnum" where
  "unsigned_literal u = (if u = ''Infinity'' then PInf else decimal_literal u)"

definition signed_literal :: "string \<Rightarrow> jsnum" where
  "signed_literal t =
     (case t of
        [] \<Rightarrow> unsigned_literal t
      | c # u \<Rightarrow> (if c = CHR ''+'' then unsigned_literal u
                   else if c = CHR ''-'' then js_neg (unsigned_literal u)
                   else unsigned_literal t))"

fun numeric_literal :: "string \<Rightarrow> jsnum" where
  "numeric_literal (z # c # rest) =
     (if z = CHR ''0'' \<and> (c = CHR ''x'' \<or> c = CHR ''X'') then radix_literal 16 rest
      else if z = CHR ''0'' \<and> (c = CHR ''o'' \<or> c = CHR ''O'') then radix_literal 8 rest
      else if z = CHR ''0'' \<and> (c = CHR ''b'' \<or> c = CHR ''B'') then radix_literal 2 rest
      else signed_literal (z # c # rest))"
| "numeric_literal t = signed_literal t"

definition js_Number :: "string \<Rightarrow> jsnum" where
  "js_Number s = (let t = js_trim s in if t = [] then Fin 0 else numeric_literal t)"

text \<open>
  \<^verbatim>\<open>parseInt(s)\<close> with no radix argument: leading white space and a sign are stripped, a
  prefix \<^verbatim>\<open>0x\<close> selects radix 16, and the longest prefix of digits is read; NaN when there
  is none.
\<close>

definition js_parseInt :: "string \<Rightarrow> jsnum" where
  "js_parseInt s =
     (let t = dropWhile is_ws s;
          (neg, u) = (case t of
                        [] \<Rightarrow> (False, t)
                      | c # r \<Rightarrow> (if c = CHR ''-'' then (True, r)
                                   else if c = CHR ''+'' then (False, r)
                                   else (False, t)));
          (radix, v) = (case u of
                          z # x # r \<Rightarrow> (if z = CHR ''0'' \<and> (x = CHR ''x'' \<or> x = CHR ''X'')
                                         then (16, r) else (10, u))
                        | _ \<Rightarrow> (10, u));
          ds = takeWhile (is_digit_in radix) v
      in if ds = [] then NaN
         else (let m = (of_nat (digits_value radix ds) :: rat)
               in if neg then js_neg (fl m) else fl m))"

section \<open>parseDuration\<close>

text \<open>
  \<^verbatim>\<open>
  function parseDuration(duration) {
    const parts = duration.split(':').map(Number);
    if (parts.length === 3) {
      return parts[0] * 3600 + parts[1] * 60 + parts[2];
    } else if (parts.length === 2) {
      return parts[0] * 60 + parts[1];
    }
    return parseInt(duration);
  }
  \<close>
\<close>

definition parseDuration :: "string \<Rightarrow> jsnum" where
  "parseDuration duration =
     (let parts = map js_Number (split_on (CHR '':'') duration)
      in if length parts = 3 then
           js_add (js_add (js_mul (parts ! 0) (Fin 3600)) (js_mul (parts ! 1) (Fin 60))) (parts ! 2)
         else if length parts = 2 then
           js_add (js_mul (parts ! 0) (Fin 60)) (parts ! 1)
         else js_parseInt duration)"

section \<open>Requests, jobs and the registry\<close>

text \<open>
  The fields of the request body that the handler copies into \<^verbatim>\<open>job.data\<close>. The two
  numbers are held by their numeric value (a missing field is NaN, as every arithmetic use
  of it gives); the optional fields are \<open>None\<close> when absent.
\<close>

record montage_data =
  videoUrls :: "string list"
  interval :: jsnum
  montageLength :: jsnum
  resolution :: "string option"
  overlayText :: "string option"
  fontSize :: "jsnum option"
  customFilename :: "string option"

datatype job_status = Queued | Processing | Completed | Failed

text \<open>
  The job object. The fields \<^verbatim>\<open>error\<close>, \<^verbatim>\<open>completedAt\<close>, \<^verbatim>\<open>downloadUrl\<close> and
  \<^verbatim>\<open>outputFile\<close> do not exist until they are assigned: \<open>None\<close>.
\<close>

record job =
  job_id :: string
  job_type :: string
  status :: job_status
  progress :: jsnum
  createdAt :: nat
  job_data :: montage_data
  error :: "string option"
  completedAt :: "nat option"
  downloadUrl :: "string option"
  outputFile :: "string option"

text \<open>
  \<^verbatim>\<open>
  const job = { id: jobId, type: "montage", status: "queued", progress: 0,
                createdAt: new Date(), data: { ... } };
  \<close>
\<close>

definition new_job :: "string \<Rightarrow> nat \<Rightarrow> montage_data \<Rightarrow> job" where
  "new_job jobId now d =
     \<lparr>job_id = jobId, job_type = ''montage'', status = Queued, progress = Fin 0,
      createdAt = now, job_data = d, error = None, completedAt = None,
      downloadUrl = None, outputFile = None\<rparr>"

datatype response = BadRequest string | Accepted string job_status

text \<open>
  The handler of \<^verbatim>\<open>POST /api/generate-montage\<close>: a request without URLs is refused
  (a missing \<^verbatim>\<open>videoUrls\<close> fails the same test and is the empty list here); otherwise
  the job is stored under a fresh identifier, which \<^verbatim>\<open>uuidv4\<close> supplies.
\<close>

definition generate_montage ::
  "(string \<rightharpoonup> job) \<Rightarrow> string \<Rightarrow> nat \<Rightarrow> montage_data \<Rightarrow> response \<times> (string \<rightharpoonup> job)" where
  "generate_montage jobs jobId now d =
     (if videoUrls d = [] then (BadRequest ''At least one video URL is required'', jobs)
      else (Accepted jobId Queued, jobs(jobId \<mapsto> new_job jobId now d)))"

section \<open>Resolution mapping\<close>

text \<open>
  \<^verbatim>\<open>
  const resolutionMap = { '480p': '854x480', '720p': '1280x720', '1080p': '1920x1080' };
  const targetResolution = resolutionMap[data.resolution] || '1280x720';
  \<close>
  \<^verbatim>\<open>resolutionMap\<close> is an object literal, so a property read that finds no own property
  goes on to \<^verbatim>\<open>Object.prototype\<close>, whose members are functions or objects, all truthy.
\<close>

datatype jsval = JStr string | JUndefined | JInherited string

definition object_prototype_keys :: "string list" where
  "object_prototype_keys =
     [''constructor'', ''__defineGetter__'', ''__defineSetter__'', ''hasOwnProperty'',
      ''__lookupGetter__'', ''__lookupSetter__'', ''isPrototypeOf'',
      ''propertyIsEnumerable'', ''toString'', ''valueOf'', ''__proto__'',
      ''toLocaleString'']"

definition resolutionMap :: "string \<Rightarrow> jsval" where
  "resolutionMap key =
     (if key = ''480p'' then JStr ''854x480''
      else if key = ''720p'' then JStr ''1280x720''
      else if key = ''1080p'' then JStr ''1920x1080''
      else if key \<in> set object_prototype_keys then JInherited key
      else JUndefined)"

text \<open>The property key of \<^verbatim>\<open>data.resolution\<close>: an absent field reads as \<^verbatim>\<open>undefined\<close>.\<close>

definition property_key :: "string option \<Rightarrow> string" where
  "property_key r = (case r of None \<Rightarrow> ''undefined'' | Some s \<Rightarrow> s)"

fun js_truthy :: "jsval \<Rightarrow> bool" where
  "js_truthy (JStr s) = (s \<noteq> [])"
| "js_truthy JUndefined = False"
| "js_truthy (JInherited k) = True"

definition targetResolution :: "montage_data \<Rightarrow> jsval" where
  "targetResolution d =
     (let v = resolutionMap (property_key (resolution d))
      in if js_truthy v then v else JStr ''1280x720'')"

section \<open>External tools\<close>

text \<open>
  What the world outside answers during one run of the pipeline: the exit of
  \<^verbatim>\<open>which\<close>, the result of \<^verbatim>\<open>fs.mkdtempSync\<close> (the message of the error thrown, or
  the directory), and for the iteration \<open>i\<close> of the clip loop the result of
  \<^verbatim>\<open>yt-dlp --get-duration\<close> (error message or standard output), the value of
  \<^verbatim>\<open>Math.random()\<close> and the error of the clip download, if any; then the error thrown by
  \<^verbatim>\<open>fs.writeFileSync\<close> and the error of the encoder, if any, and the time of completion.
\<close>

record env =
  which_ok :: "string \<Rightarrow> bool"
  mkdtemp_result :: "string + string"
  duration_result :: "nat \<Rightarrow> string + string"
  random_result :: "nat \<Rightarrow> rat"
  download_result :: "nat \<Rightarrow> string option"
  writeFile_result :: "string option"
  encode_result :: "string option"
  clock :: nat

text \<open>The errors that Node and the tools raise carry a message that is not empty.\<close>

definition messages_ok :: "env \<Rightarrow> bool" where
  "messages_ok e =
     ((case mkdtemp_result e of Inl m \<Rightarrow> m \<noteq> [] | Inr w \<Rightarrow> True)
      \<and> writeFile_result e \<noteq> Some [] \<and> encode_result e \<noteq> Some [])"

datatype video_filter = ScaleOnly jsval | ScaleDrawtext jsval string jsnum

datatype action =
    ActWhich string
  | ActMkdtemp
  | ActProbe "string option"
  | ActDownload "string option" jsnum jsnum string
  | ActLogClip nat string
  | ActWriteFile string string
  | ActEncode string video_filter string
  | ActLogError string

definition commandExists :: "env \<Rightarrow> string \<Rightarrow> bool" where
  "commandExists e command = which_ok e command"

text \<open>\<^verbatim>\<open>getVideoDuration\<close>: rejects with the error of \<^verbatim>\<open>exec\<close>, or resolves to the trimmed output.\<close>

definition getVideoDuration :: "env \<Rightarrow> nat \<Rightarrow> string + string" where
  "getVideoDuration e i =
     (case duration_result e i of Inl err \<Rightarrow> Inl err | Inr stdout \<Rightarrow> Inr (js_trim stdout))"

text \<open>
  \<^verbatim>\<open>createMontage\<close>: the encoder's command, with the text overlay when \<^verbatim>\<open>overlayText\<close>
  is truthy and scaling alone otherwise.
\<close>

definition createMontage :: "string \<Rightarrow> string \<Rightarrow> jsval \<Rightarrow> string option \<Rightarrow> jsnum \<Rightarrow> action" where
  "createMontage clipList out res overlay fsize =
     ActEncode clipList
       (case overlay of
          None \<Rightarrow> ScaleOnly res
        | Some t \<Rightarrow> (if t \<noteq> [] then ScaleDrawtext res t fsize else ScaleOnly res))
       out"

section \<open>The pipeline\<close>

text \<open>
  The state of one run of \<^verbatim>\<open>processMontage\<close>: the job object, the sequence of states
  that \<^verbatim>\<open>jobs.set\<close> stored (the job is mutated in place, and every group of assignments
  is followed by \<^verbatim>\<open>jobs.set\<close> before the next \<^verbatim>\<open>await\<close>, so these are the states a
  reader of the registry can see), the external calls made so far, and the array
  \<^verbatim>\<open>clips\<close>.
\<close>

record run =
  rjob :: job
  snaps :: "job list"
  acts :: "action list"
  clips :: "string list"

definition set_job :: "(job \<Rightarrow> job) \<Rightarrow> run \<Rightarrow> run" where
  "set_job f r = (let j = f (rjob r) in r\<lparr>rjob := j, snaps := snaps r @ [j]\<rparr>)"

definition act :: "action \<Rightarrow> run \<Rightarrow> run" where
  "act a r = r\<lparr>acts := acts r @ [a]\<rparr>"

text \<open>
  The handler of the outer \<^verbatim>\<open>catch\<close>:
  \<^verbatim>\<open>
  console.error("Error processing montage:", error);
  job.status = "failed";
  job.error = error.message;
  jobs.set(jobId, job);
  \<close>
\<close>

definition on_error :: "string \<Rightarrow> run \<Rightarrow> run" where
  "on_error msg r =
     set_job (\<lambda>j. j\<lparr>status := Failed, error := Some msg\<rparr>) (act (ActLogError msg) r)"

text \<open>A run of the loop that has not ended when the fuel is used up is \<open>OutOfFuel\<close>.\<close>

datatype 'a fuelled = Done 'a | OutOfFuel 'a

fun the_run :: "'a fuelled \<Rightarrow> 'a" where
  "the_run (Done r) = r"
| "the_run (OutOfFuel r) = r"

fun is_done :: "'a fuelled \<Rightarrow> bool" where
  "is_done (Done r) = True"
| "is_done (OutOfFuel r) = False"

text \<open>\<^verbatim>\<open>String(n)\<close> for a natural number, \<^verbatim>\<open>padStart\<close>, and \<^verbatim>\<open>path.join\<close> of a directory
  and a name (without the normalisation of dots and repeated separators).\<close>

fun string_of_nat :: "nat \<Rightarrow> string" where
  "string_of_nat n =
     (if n < 10 then [char_of (48 + n)]
      else string_of_nat (n div 10) @ [char_of (48 + n mod 10)])"

definition padStart :: "nat \<Rightarrow> char \<Rightarrow> string \<Rightarrow> string" where
  "padStart n c s = replicate (n - length s) c @ s"

definition path_join :: "string \<Rightarrow> string \<Rightarrow> string" where
  "path_join dir name = dir @ ''/'' @ name"

text \<open>\<^verbatim>\<open>data.videoUrls[0]\<close>: \<^verbatim>\<open>undefined\<close> on an empty array.\<close>

definition first_url :: "montage_data \<Rightarrow> string option" where
  "first_url d = (case videoUrls d of [] \<Rightarrow> None | u # us \<Rightarrow> Some u)"

definition clipsNeeded :: "montage_data \<Rightarrow> jsnum" where
  "clipsNeeded d = js_floor (js_div (montageLength d) (interval d))"

definition maxStart :: "jsnum \<Rightarrow> jsnum \<Rightarrow> jsnum" where
  "maxStart durationSeconds ival = js_max (Fin 0) (js_sub durationSeconds ival)"

definition startTime :: "rat \<Rightarrow> jsnum \<Rightarrow> jsnum" where
  "startTime random mx = js_floor (js_mul (Fin random) mx)"

definition clipFile :: "string \<Rightarrow> nat \<Rightarrow> string" where
  "clipFile workspace i =
     path_join workspace (''clip_'' @ padStart 2 (CHR ''0'') (string_of_nat (i + 1)) @ ''.mp4'')"

definition loop_progress :: "nat \<Rightarrow> jsnum \<Rightarrow> jsnum" where
  "loop_progress i n = js_add (Fin 20) (js_mul (js_div (Fin (of_nat i)) n) (Fin 40))"

text \<open>
  One iteration of the clip loop:
  \<^verbatim>\<open>
  const url = data.videoUrls[0]; // Use first video for now
  try {
    const duration = await getVideoDuration(url);
    const durationSeconds = parseDuration(duration);
    const maxStart = Math.max(0, durationSeconds - data.interval);
    const startTime = Math.floor(Math.random() * maxStart);
    const clipFile = path.join(workspace, `clip_${String(i + 1).padStart(2, '0')}.mp4`);
    await downloadClip(url, startTime, data.interval, clipFile);
    clips.push(clipFile);
    job.progress = 20 + (i / clipsNeeded) * 40;
    jobs.set(jobId, job);
  } catch (error) {
    console.error(`Failed to download clip ${i + 1}:`, error);
  }
  \<close>
\<close>

definition clip_body :: "env \<Rightarrow> montage_data \<Rightarrow> string \<Rightarrow> jsnum \<Rightarrow> nat \<Rightarrow> run \<Rightarrow> run" where
  "clip_body e d workspace n i r =
     (let url = first_url d;
          r1 = act (ActProbe url) r
      in case getVideoDuration e i of
           Inl err \<Rightarrow> act (ActLogClip (i + 1) err) r1
         | Inr duration \<Rightarrow>
             (let durationSeconds = parseDuration duration;
                  mx = maxStart durationSeconds (interval d);
                  st = startTime (random_result e i) mx;
                  cf = clipFile workspace i;
                  r2 = act (ActDownload url st (interval d) cf) r1
              in case download_result e i of
                   Some err \<Rightarrow> act (ActLogClip (i + 1) err) r2
                 | None \<Rightarrow>
                     set_job (\<lambda>j. j\<lparr>progress := loop_progress i n\<rparr>)
                       (r2\<lparr>clips := clips r2 @ [cf]\<rparr>)))"

text \<open>
  \<^verbatim>\<open>for (let i = 0; i < clipsNeeded; i++) { ... }\<close>, from the index \<open>i\<close> on, with at most
  \<open>fuel\<close> iterations. The result holds the index at which the loop stopped. The index is
  held as a natural number: the counter of the code is a double, and its increment is
  exact as long as the counter is below \<open>2 ^ 53\<close>.
\<close>

fun clip_loop ::
  "nat \<Rightarrow> env \<Rightarrow> montage_data \<Rightarrow> string \<Rightarrow> jsnum \<Rightarrow> nat \<Rightarrow> run \<Rightarrow> (nat \<times> run) fuelled" where
  "clip_loop 0 e d workspace n i r =
     (if js_lt (Fin (of_nat i)) n then OutOfFuel (i, r) else Done (i, r))"
| "clip_loop (Suc fuel) e d workspace n i r =
     (if js_lt (Fin (of_nat i)) n
      then clip_loop fuel e d workspace n (Suc i) (clip_body e d workspace n i r)
      else Done (i, r))"

text \<open>The manifest: \<^verbatim>\<open>clips.map(clip => `file '${clip}'`).join('\n')\<close>.\<close>

fun join_lines :: "string list \<Rightarrow> string" where
  "join_lines [] = []"
| "join_lines [x] = x"
| "join_lines (x # y # ys) = x @ [CHR 0x0A] @ join_lines (y # ys)"

definition clipListContent :: "string list \<Rightarrow> string" where
  "clipListContent cs = join_lines (map (\<lambda>clip. ''file '' @ [CHR 0x27] @ clip @ [CHR 0x27]) cs)"

text \<open>\<^verbatim>\<open>data.customFilename || "montage"\<close> and \<^verbatim>\<open>data.fontSize || 48\<close>.\<close>

definition scriptName :: "montage_data \<Rightarrow> string" where
  "scriptName d =
     (case customFilename d of
        None \<Rightarrow> ''montage''
      | Some s \<Rightarrow> (if s \<noteq> [] then s else ''montage''))"

definition fontSize_or_default :: "montage_data \<Rightarrow> jsnum" where
  "fontSize_or_default d =
     (case fontSize d of
        None \<Rightarrow> Fin 48
      | Some v \<Rightarrow> (if js_truthy_num v then v else Fin 48))"

text \<open>
  The stages after the clip loop (lines 181 to 207): progress 60, the manifest, progress
  70, the encoder, progress 90, and the publication of the result.
\<close>

definition finish_montage :: "env \<Rightarrow> string \<Rightarrow> montage_data \<Rightarrow> string \<Rightarrow> run \<Rightarrow> run" where
  "finish_montage e jobId d workspace r =
     (let r1 = set_job (\<lambda>j. j\<lparr>progress := Fin 60\<rparr>) r;
          clipList = path_join workspace ''clip_list.txt'';
          r2 = act (ActWriteFile clipList (clipListContent (clips r1))) r1
      in case writeFile_result e of
           Some msg \<Rightarrow> on_error msg r2
         | None \<Rightarrow>
             (let r3 = set_job (\<lambda>j. j\<lparr>progress := Fin 70\<rparr>) r2;
                  out = path_join workspace (scriptName d @ ''_v01.mp4'');
                  r4 = act (createMontage clipList out (targetResolution d)
                              (overlayText d) (fontSize_or_default d)) r3
              in case encode_result e of
                   Some msg \<Rightarrow> on_error msg r4
                 | None \<Rightarrow>
                     (let r5 = set_job (\<lambda>j. j\<lparr>progress := Fin 90\<rparr>) r4;
                          url = ''/api/download/'' @ jobId
                      in set_job (\<lambda>j. j\<lparr>status := Completed, progress := Fin 100,
                                         completedAt := Some (clock e),
                                         downloadUrl := Some url,
                                         outputFile := Some out\<rparr>) r5)))"

text \<open>
  The body of \<^verbatim>\<open>processMontage\<close> once the job has been found, run with fuel for the
  clip loop.
\<close>

definition pipeline :: "env \<Rightarrow> nat \<Rightarrow> string \<Rightarrow> montage_data \<Rightarrow> job \<Rightarrow> run fuelled" where
  "pipeline e fuel jobId d j =
     (let r0 = \<lparr>rjob = j, snaps = [j], acts = [], clips = []\<rparr>;
          hasFFmpeg = commandExists e ''ffmpeg'';
          hasYtDlp = commandExists e ''yt-dlp'';
          r1 = act (ActWhich ''yt-dlp'') (act (ActWhich ''ffmpeg'') r0)
      in if \<not> hasFFmpeg \<or> \<not> hasYtDlp then
           Done (set_job (\<lambda>j. j\<lparr>status := Failed,
                   error := Some ''Missing dependencies: FFmpeg and yt-dlp are required''\<rparr>) r1)
         else
           (let r2 = act ActMkdtemp (set_job (\<lambda>j. j\<lparr>status := Processing, progress := Fin 10\<rparr>) r1)
            in case mkdtemp_result e of
                 Inl msg \<Rightarrow> Done (on_error msg r2)
               | Inr workspace \<Rightarrow>
                   (let r3 = set_job (\<lambda>j. j\<lparr>progress := Fin 20\<rparr>) r2
                    in case clip_loop fuel e d workspace (clipsNeeded d) 0 r3 of
                         OutOfFuel (i, r) \<Rightarrow> OutOfFuel r
                       | Done (i, r) \<Rightarrow> Done (finish_montage e jobId d workspace r))))"

text \<open>
  \<^verbatim>\<open>
  async function processMontage(jobId, data) {
    const job = jobs.get(jobId);
    if (!job) return;
    ...
  \<close>
\<close>

definition processMontage ::
  "env \<Rightarrow> nat \<Rightarrow> (string \<rightharpoonup> job) \<Rightarrow> string \<Rightarrow> montage_data \<Rightarrow> run fuelled option" where
  "processMontage e fuel jobs jobId d =
     (case jobs jobId of
        None \<Rightarrow> None
      | Some j \<Rightarrow> Some (pipeline e fuel jobId d j))"

text \<open>The run of a job that the handler has just created.\<close>

definition job_run :: "env \<Rightarrow> nat \<Rightarrow> string \<Rightarrow> nat \<Rightarrow> montage_data \<Rightarrow> run" where
  "job_run e fuel jobId now d = the_run (pipeline e fuel jobId d (new_job jobId now d))"

definition job_done :: "env \<Rightarrow> nat \<Rightarrow> string \<Rightarrow> nat \<Rightarrow> montage_data \<Rightarrow> bool" where
  "job_done e fuel jobId now d = is_done (pipeline e fuel jobId d (new_job jobId now d))"

section \<open>Notions used in the properties\<close>

text \<open>A non-empty string of decimal digits, and its value: \<open>digits_value 10\<close>.\<close>

definition all_digits :: "string \<Rightarrow> bool" where
  "all_digits s = (s \<noteq> [] \<and> list_all (is_digit_in 10) s)"

text \<open>
  The state of a run when the clip loop starts (line 159), for a job \<open>j\<close> found in the
  registry, with both tools present and the workspace created.
\<close>

definition loop_start :: "job \<Rightarrow> run" where
  "loop_start j =
     set_job (\<lambda>j. j\<lparr>progress := Fin 20\<rparr>)
       (act ActMkdtemp
         (set_job (\<lambda>j. j\<lparr>status := Processing, progress := Fin 10\<rparr>)
           (act (ActWhich ''yt-dlp'')
             (act (ActWhich ''ffmpeg'') \<lparr>rjob = j, snaps = [j], acts = [], clips = []\<rparr>))))"

text \<open>The clip \<open>i\<close> succeeds when its probe and its download both do.\<close>

definition clip_ok :: "env \<Rightarrow> nat \<Rightarrow> bool" where
  "clip_ok e i =
     (case duration_result e i of Inl err \<Rightarrow> False | Inr out \<Rightarrow> download_result e i = None)"




text \<open>
  The run ended in failure from progress \<open>p\<close> with the message \<open>msg\<close>: the last state
  that the registry saw is the one before it, a state of processing with progress \<open>p\<close>,
  with nothing changed but the status, now failed, and the error, now \<open>msg\<close>.
\<close>

definition failed_at :: "rat \<Rightarrow> string \<Rightarrow> run \<Rightarrow> bool" where
  "failed_at p msg r =
     (case rev (snaps r) of
        final # prev # earlier \<Rightarrow>
          final = prev\<lparr>status := Failed, error := Some msg\<rparr>
          \<and> status prev = Processing \<and> progress prev = Fin p \<and> rjob r = final
      | _ \<Rightarrow> False)"

text \<open>
  The result fields of a stored state agree with its status: an output file, which is
  not the empty path, and a download URL exactly when completed, an error exactly when
  failed; with \<open>strict\<close>, the error is moreover not the empty message.
\<close>

definition fields_ok :: "bool \<Rightarrow> job \<Rightarrow> bool" where
  "fields_ok strict j =
     ((case outputFile j of
         None \<Rightarrow> status j \<noteq> Completed
       | Some p \<Rightarrow> p \<noteq> [] \<and> status j = Completed)
      \<and> ((downloadUrl j \<noteq> None) = (status j = Completed))
      \<and> (case error j of
            None \<Rightarrow> status j \<noteq> Failed
          | Some m \<Rightarrow> (strict \<longrightarrow> m \<noteq> []) \<and> status j = Failed))"

text \<open>A run whose stored states are all in order and whose job has no result field yet.\<close>

definition fields_pending :: "bool \<Rightarrow> run \<Rightarrow> bool" where
  "fields_pending strict r =
     (list_all (fields_ok strict) (snaps r)
      \<and> (status (rjob r) = Queued \<or> status (rjob r) = Processing)
      \<and> error (rjob r) = None \<and> outputFile (rjob r) = None \<and> downloadUrl (rjob r) = None)"

text \<open>
  The stored states \<open>S\<close> have a finite progress between 0 and \<open>p\<close>, which is 100 exactly in
  a completed state, and the progress never decreases along \<open>S\<close>.
\<close>

definition trace_ok :: "rat \<Rightarrow> job list \<Rightarrow> bool" where
  "trace_ok p S =
     (list_all (\<lambda>j. case progress j of
                       Fin q \<Rightarrow> 0 \<le> q \<and> q \<le> p \<and> ((q = 100) = (status j = Completed))
                     | _ \<Rightarrow> False) S
      \<and> sorted_wrt (\<lambda>a b. js_le (progress a) (progress b)) S)"

text \<open>A run in order whose job is at progress \<open>p\<close>, below 100, and not completed.\<close>

definition run_ok :: "rat \<Rightarrow> run \<Rightarrow> bool" where
  "run_ok p r =
     (trace_ok p (snaps r) \<and> progress (rjob r) = Fin p \<and> status (rjob r) \<noteq> Completed
      \<and> 0 \<le> p \<and> p < 100)"

text \<open>
  The value of \<^verbatim>\<open>20 + (i / clipsNeeded) * 40\<close> inside the loop, where \<open>clipsNeeded\<close> is a
  positive number or +Infinity.
\<close>

definition loop_level :: "jsnum \<Rightarrow> nat \<Rightarrow> rat" where
  "loop_level n k = val (loop_progress k n)"

section \<open>Concrete requests and environments\<close>

text \<open>
  A request for 95 seconds in clips of 30, and variants of it; an environment in which
  every tool succeeds, and variants in which one of them fails.
\<close>

definition sample_data :: montage_data where
  "sample_data =
     \<lparr>videoUrls = [''https://example.org/a'', ''https://example.org/b''],
      interval = Fin 30, montageLength = Fin 95, resolution = Some ''720p'',
      overlayText = None, fontSize = None, customFilename = None\<rparr>"

definition data_sixteen :: montage_data where
  "data_sixteen = sample_data\<lparr>interval := Fin 10, montageLength := Fin 160\<rparr>"






definition data_quarter :: montage_data where
  "data_quarter = sample_data\<lparr>interval := fl (1 / 100), montageLength := Fin (1 / 4)\<rparr>"

definition env_ok :: env where
  "env_ok =
     \<lparr>which_ok = (\<lambda>c. True), mkdtemp_result = Inr ''/tmp/montage-Ab12'',
      duration_result = (\<lambda>i. Inr (''1:40'' @ [CHR 0x0A])), random_result = (\<lambda>i. 1 / 2),
      download_result = (\<lambda>i. None), writeFile_result = None, encode_result = None,
      clock = 1\<rparr>"

definition env_no_ffmpeg :: env where
  "env_no_ffmpeg = env_ok\<lparr>which_ok := (\<lambda>c. c \<noteq> ''ffmpeg'')\<rparr>"



definition env_mkdtemp_fails :: env where
  "env_mkdtemp_fails = env_ok\<lparr>mkdtemp_result := Inl ''EACCES: permission denied, mkdtemp''\<rparr>"

definition env_write_fails :: env where
  "env_write_fails = env_ok\<lparr>writeFile_result := Some ''ENOSPC: no space left on device, write''\<rparr>"

definition env_encode_fails :: env where
  "env_encode_fails = env_ok\<lparr>encode_result := Some ''Command failed: ffmpeg -f concat''\<rparr>"


section \<open>Rounding to doubles\<close>

text \<open>
  The rounding is to a nearest multiple of the spacing, it is monotone, it is within half
  a spacing of its argument, and it leaves every number of at most 53 significant bits as
  it is: in particular every integer up to \<open>2 ^ 53\<close>, which is 9007199254740992.
\<close>

lemma round_even_bounds: "\<bar>of_int (round_even q) - q\<bar> \<le> 1 / 2"
  unfolding round_even_def Let_def by (auto simp add: abs_if) linarith+

lemma round_even_int [simp]: "round_even (of_int n) = n"
  by (simp add: round_even_def)

lemma round_even_range: "\<lfloor>q\<rfloor> \<le> round_even q" "round_even q \<le> \<lfloor>q\<rfloor> + 1"
  by (simp_all add: round_even_def Let_def)

lemma round_even_mono:
  assumes "q \<le> q'"
  shows "round_even q \<le> round_even q'"
proof (cases "\<lfloor>q\<rfloor> = \<lfloor>q'\<rfloor>")
  case True
  then have "q - of_int \<lfloor>q\<rfloor> \<le> q' - of_int \<lfloor>q'\<rfloor>" using assms by simp
  then show ?thesis using True unfolding round_even_def Let_def by auto
next
  case False
  then have "\<lfloor>q\<rfloor> < \<lfloor>q'\<rfloor>" using assms floor_mono[OF assms] by linarith
  then show ?thesis using round_even_range(2)[of q] round_even_range(1)[of q'] by linarith
qed


lemma bitlen_powi:
  assumes "0 < p"
  shows "2 powi (bitlen p - 1) \<le> (of_int p :: rat)" and "(of_int p :: rat) < 2 powi (bitlen p)"
proof -
  from bitlen_bounds[OF assms]
  have a: "2 ^ nat (bitlen p - 1) \<le> p" and b: "p < 2 ^ nat (bitlen p)" by simp_all
  have ge: "1 \<le> bitlen p" using assms by (auto simp add: bitlen_alt_def)
  have "(2::rat) powi (bitlen p - 1) = 2 ^ nat (bitlen p - 1)"
    using ge by (simp add: power_int_nonneg_exp)
  also have "\<dots> = of_int (2 ^ nat (bitlen p - 1))" by simp
  also have "\<dots> \<le> of_int p" using a by (simp only: of_int_le_iff)
  finally show "2 powi (bitlen p - 1) \<le> (of_int p :: rat)" .
  have "(of_int p :: rat) < of_int (2 ^ nat (bitlen p))" using b by (simp only: of_int_less_iff)
  also have "\<dots> = 2 ^ nat (bitlen p)" by simp
  also have "\<dots> = (2::rat) powi (bitlen p)"
    using ge by (simp add: power_int_nonneg_exp)
  finally show "(of_int p :: rat) < 2 powi (bitlen p)" .
qed

lemma ilog2_bounds:
  assumes "0 < a"
  shows "2 powi (ilog2 a) \<le> a" and "a < 2 powi (ilog2 a + 1)"
proof -
  obtain p q where pq: "quotient_of a = (p, q)" by (cases "quotient_of a")
  then have q: "0 < q" and a: "a = of_int p / of_int q"
    using quotient_of_denom_pos quotient_of_div by blast+
  have p: "0 < p" using assms q a by (simp add: zero_less_divide_iff)
  let ?d = "bitlen p - bitlen q"
  note bp = bitlen_powi[OF p] and bq = bitlen_powi[OF q]
  have qpos: "(0::rat) < of_int q" using q by simp
  have up: "a < 2 powi (?d + 1)"
  proof -
    have "a < 2 powi (bitlen p) / of_int q"
      unfolding a using bp(2) qpos by (simp add: divide_strict_right_mono)
    also have "\<dots> \<le> 2 powi (bitlen p) / 2 powi (bitlen q - 1)"
      using bq(1) qpos by (intro divide_left_mono) (simp_all add: zero_less_mult_iff)
    also have "\<dots> = 2 powi (?d + 1)"
      by (simp add: power_int_diff[symmetric] algebra_simps)
    finally show ?thesis .
  qed
  have lo: "2 powi (?d - 1) < a"
  proof -
    have "2 powi (?d - 1) = 2 powi (bitlen p - 1) / (2::rat) powi (bitlen q)"
      by (simp add: power_int_diff[symmetric] algebra_simps)
    also have "\<dots> < 2 powi (bitlen p - 1) / of_int q"
      using bq(2) qpos by (intro divide_strict_left_mono) simp_all
    also have "\<dots> \<le> a"
      unfolding a using bp(1) qpos by (simp add: divide_right_mono)
    finally show ?thesis .
  qed
  have e: "ilog2 a = (if 2 powi ?d \<le> a then ?d else ?d - 1)"
    by (simp add: ilog2_def pq Let_def)
  show "2 powi (ilog2 a) \<le> a" using lo unfolding e by auto
  show "a < 2 powi (ilog2 a + 1)" using up unfolding e by auto
qed

lemma ilog2_unique:
  assumes "2 powi e \<le> a" and "a < 2 powi (e + 1)"
  shows "ilog2 a = e"
proof -
  have pos: "0 < a" using assms(1) by (rule less_le_trans[rotated]) simp
  note b = ilog2_bounds[OF pos]
  have "(2::rat) powi e < 2 powi (ilog2 a + 1)" using assms(1) b(2) by linarith
  then have 1: "e < ilog2 a + 1"
    by (metis not_less power_int_increasing[of _ _ "2::rat"] one_le_numeral)
  have "(2::rat) powi (ilog2 a) < 2 powi (e + 1)" using assms(2) b(1) by linarith
  then have 2: "ilog2 a < e + 1"
    by (metis not_less power_int_increasing[of _ _ "2::rat"] one_le_numeral)
  show ?thesis using 1 2 by linarith
qed

lemma ilog2_mono:
  assumes "0 < a" and "a \<le> b"
  shows "ilog2 a \<le> ilog2 b"
proof -
  have "0 < b" using assms by linarith
  note ba = ilog2_bounds[OF assms(1)] and bb = ilog2_bounds[OF this]
  have "(2::rat) powi (ilog2 a) < 2 powi (ilog2 b + 1)" using ba(1) bb(2) assms(2) by linarith
  then have "ilog2 a < ilog2 b + 1"
    by (metis not_less power_int_increasing[of _ _ "2::rat"] one_le_numeral)
  then show ?thesis by simp
qed


lemma ulp_pos [simp]: "0 < ulp a"
  by (simp add: ulp_def)

lemma ulp_nonneg [simp]: "0 \<le> ulp a"
  by (rule less_imp_le) simp

lemma ulp_neq0 [simp]: "ulp a \<noteq> 0"
  by (simp add: ulp_def)

lemma expo_mono: "0 < a \<Longrightarrow> a \<le> b \<Longrightarrow> expo a \<le> expo b"
  using ilog2_mono[of a b] by (simp add: expo_def max_def)

lemma two53_ulp: "9007199254740992 * ulp a = 2 powi (expo a + 1)"
proof -
  have "(2::rat) powi 53 * 2 powi (expo a - 52) = 2 powi (53 + (expo a - 52))"
    by (rule power_int_add[symmetric]) simp
  then show ?thesis by (simp add: ulp_def algebra_simps)
qed

lemma two52_ulp: "4503599627370496 * ulp a = 2 powi (expo a)"
proof -
  have "(2::rat) powi 52 * 2 powi (expo a - 52) = 2 powi (52 + (expo a - 52))"
    by (rule power_int_add[symmetric]) simp
  then show ?thesis by (simp add: ulp_def algebra_simps)
qed

lemma scaled_upper:
  assumes "0 < a"
  shows "a / ulp a < 9007199254740992"
proof -
  have "a < 2 powi (ilog2 a + 1)" using ilog2_bounds(2)[OF assms] .
  also have "\<dots> \<le> 2 powi (expo a + 1)"
    by (intro power_int_increasing) (simp_all add: expo_def)
  also have "\<dots> = 9007199254740992 * ulp a" by (simp add: two53_ulp)
  finally show ?thesis by (simp add: pos_divide_less_eq)
qed

lemma scaled_lower:
  assumes "0 < a" and "- 1022 \<le> ilog2 a"
  shows "4503599627370496 \<le> a / ulp a"
proof -
  have e: "expo a = ilog2 a" using assms(2) by (simp add: expo_def)
  have "4503599627370496 * ulp a = 2 powi (ilog2 a)" by (simp add: two52_ulp e)
  also have "\<dots> \<le> a" using ilog2_bounds(1)[OF assms(1)] .
  finally show ?thesis by (simp add: pos_le_divide_eq)
qed

lemma round53_nonneg [simp]: "0 \<le> round53 a"
proof (cases "a \<le> 0")
  case True
  then show ?thesis by (simp add: round53_def)
next
  case False
  then have "0 \<le> a / ulp a" by (simp add: zero_le_divide_iff)
  then have "0 \<le> round_even (a / ulp a)"
    using round_even_range(1)[of "a / ulp a"] by (simp add: order_trans[of 0 "\<lfloor>a / ulp a\<rfloor>"])
  then show ?thesis using False by (simp add: round53_def)
qed

lemma round53_upper:
  assumes "0 < a"
  shows "round53 a \<le> 2 powi (expo a + 1)"
proof -
  have "\<lfloor>a / ulp a\<rfloor> < 9007199254740992"
    using scaled_upper[OF assms] by (simp add: floor_less_iff)
  then have "round_even (a / ulp a) \<le> 9007199254740992"
    using round_even_range(2)[of "a / ulp a"] by linarith
  then have "(of_int (round_even (a / ulp a)) :: rat) \<le> of_int (9007199254740992)"
    by (simp only: of_int_le_iff)
  then have "of_int (round_even (a / ulp a)) * ulp a \<le> 9007199254740992 * ulp a"
    by (intro mult_right_mono) simp_all
  then show ?thesis using assms by (simp add: round53_def two53_ulp)
qed

lemma round53_lower:
  assumes "0 < a" and "- 1022 \<le> ilog2 a"
  shows "2 powi (expo a) \<le> round53 a"
proof -
  have "(4503599627370496::int) \<le> \<lfloor>a / ulp a\<rfloor>"
    using scaled_lower[OF assms] by (simp add: le_floor_iff)
  then have "4503599627370496 \<le> round_even (a / ulp a)"
    using round_even_range(1)[of "a / ulp a"] by linarith
  then have "(of_int (4503599627370496) :: rat) \<le> of_int (round_even (a / ulp a))"
    by (simp only: of_int_le_iff)
  then have "4503599627370496 * ulp a \<le> of_int (round_even (a / ulp a)) * ulp a"
    by (intro mult_right_mono) simp_all
  then show ?thesis using assms by (simp add: round53_def two52_ulp)
qed

lemma round53_mono:
  assumes "a \<le> b"
  shows "round53 a \<le> round53 b"
proof (cases "a \<le> 0")
  case True
  then show ?thesis by (simp add: round53_def[of a])
next
  case False
  then have a: "0 < a" and b: "0 < b" using assms by linarith+
  have le: "expo a \<le> expo b" using expo_mono[OF a assms] .
  show ?thesis
  proof (cases "expo a = expo b")
    case True
    then have u: "ulp a = ulp b" by (simp add: ulp_def)
    have "a / ulp b \<le> b / ulp b" using assms by (simp add: divide_right_mono)
    then have "round_even (a / ulp b) \<le> round_even (b / ulp b)" by (rule round_even_mono)
    then have "(of_int (round_even (a / ulp b)) :: rat) \<le> of_int (round_even (b / ulp b))"
      by (simp only: of_int_le_iff)
    then have "of_int (round_even (a / ulp b)) * ulp b \<le> of_int (round_even (b / ulp b)) * ulp b"
      by (intro mult_right_mono) simp_all
    then show ?thesis using a b by (simp add: round53_def u)
  next
    case False
    then have lt: "expo a + 1 \<le> expo b" using le by linarith
    then have "- 1022 < expo b" by (simp add: expo_def)
    then have ib: "- 1022 \<le> ilog2 b" by (simp add: expo_def max_def split: if_splits)
    have "round53 a \<le> 2 powi (expo a + 1)" using round53_upper[OF a] .
    also have "\<dots> \<le> 2 powi (expo b)" using lt by (intro power_int_increasing) simp_all
    also have "\<dots> \<le> round53 b" using round53_lower[OF b ib] .
    finally show ?thesis .
  qed
qed

lemma round53_error:
  assumes "0 < a"
  shows "\<bar>round53 a - a\<bar> \<le> ulp a / 2"
proof -
  have "\<bar>of_int (round_even (a / ulp a)) - a / ulp a\<bar> * ulp a \<le> 1 / 2 * ulp a"
    using round_even_bounds[of "a / ulp a"] by (intro mult_right_mono) simp_all
  moreover have "\<bar>of_int (round_even (a / ulp a)) - a / ulp a\<bar> * ulp a
      = \<bar>of_int (round_even (a / ulp a)) * ulp a - a\<bar>"
  proof -
    have "\<bar>of_int (round_even (a / ulp a)) - a / ulp a\<bar> * ulp a
        = \<bar>(of_int (round_even (a / ulp a)) - a / ulp a) * ulp a\<bar>"
      by (simp add: abs_mult)
    also have "(of_int (round_even (a / ulp a)) - a / ulp a) * ulp a
        = of_int (round_even (a / ulp a)) * ulp a - a"
      by (simp add: algebra_simps)
    finally show ?thesis .
  qed
  ultimately show ?thesis using assms by (simp add: round53_def)
qed

lemma round53_exact:
  assumes "0 < n" and "n \<le> 9007199254740992" and "- 1074 \<le> k"
  shows "round53 (of_int n * 2 powi k) = of_int n * 2 powi k"
proof -
  let ?a = "of_int n * (2::rat) powi k"
  have a: "0 < ?a" using assms(1) by simp
  have np: "(of_int n :: rat) \<le> 9007199254740992" using assms(2) by (metis of_int_le_iff of_int_numeral)
  have "\<exists>j. ?a / ulp ?a = of_int j"
  proof (cases "expo ?a \<le> k + 52")
    case True
    then obtain m where m: "k - (expo ?a - 52) = int m"
      by (metis diff_ge_0_iff_ge nonneg_int_cases add.commute diff_diff_eq2 diff_add_eq)
    have "?a / ulp ?a = of_int n * (2 powi k / 2 powi (expo ?a - 52))"
      by (simp add: ulp_def)
    also have "2 powi k / (2::rat) powi (expo ?a - 52) = 2 powi (k - (expo ?a - 52))"
      by (simp add: power_int_diff)
    also have "\<dots> = 2 ^ m" unfolding m by simp
    also have "of_int n * (2::rat) ^ m = of_int (n * 2 ^ m)" by simp
    finally show ?thesis by blast
  next
    case False
    then have gt: "k + 53 \<le> expo ?a" by linarith
    then have e: "expo ?a = ilog2 ?a" using assms(3) by (simp add: expo_def max_def split: if_splits)
    have "2 powi (k + 53) \<le> (2::rat) powi (ilog2 ?a)"
      using gt e by (intro power_int_increasing) simp_all
    also have "\<dots> \<le> ?a" using ilog2_bounds(1)[OF a] .
    finally have "2 powi 53 * 2 powi k \<le> of_int n * (2::rat) powi k"
      by (simp add: power_int_add algebra_simps)
    then have "(2::rat) powi 53 \<le> of_int n" by (simp add: mult_le_cancel_right)
    then have n: "(of_int n :: rat) = 9007199254740992" using np by simp
    then have av: "?a = 2 powi (k + 53)" by (simp add: power_int_add algebra_simps)
    have "ilog2 ?a = k + 53"
      unfolding av by (rule ilog2_unique) (simp_all add: power_int_strict_increasing)
    then have "ulp ?a = 2 powi (k + 1)" using e by (simp add: ulp_def algebra_simps)
    then have "?a / ulp ?a = 2 powi (k + 53) / 2 powi (k + 1)" using av by simp
    also have "\<dots> = 2 powi ((k + 53) - (k + 1))" by (rule power_int_diff[symmetric]) simp
    also have "\<dots> = of_int (4503599627370496)" by simp
    finally show ?thesis by blast
  qed
  then obtain j where j: "?a / ulp ?a = of_int j" by blast
  then have "of_int j * ulp ?a = ?a" by (simp add: field_simps)
  then show ?thesis using a by (simp add: round53_def[of ?a] j del: of_int_mult)
qed

lemma round53_int:
  assumes "0 \<le> n" and "n \<le> 9007199254740992"
  shows "round53 (of_int n) = of_int n"
proof (cases "n = 0")
  case True
  then show ?thesis by (simp add: round53_def)
next
  case False
  then have "0 < n" using assms by simp
  from round53_exact[OF this assms(2), of 0] show ?thesis by simp
qed

lemma round53_below:
  assumes "1 \<le> c" and "round53 c = c" and "y \<le> c * (1 - 1 / 9007199254740992)"
  shows "round53 y < c"
proof (cases "0 < y")
  case False
  then show ?thesis using assms(1) by (simp add: round53_def)
next
  case True
  have yc: "y < c"
  proof -
    have "c * (1 - 1 / 9007199254740992) < c * 1" using assms(1) by (intro mult_strict_left_mono) simp_all
    then show ?thesis using assms(3) by simp
  qed
  have le: "round53 y \<le> c" using round53_mono[of y c] yc assms(2) by simp
  have "round53 y \<noteq> c"
  proof
    assume eq: "round53 y = c"
    have "c - y \<le> ulp y / 2" using round53_error[OF True] eq by (simp add: abs_if split: if_splits)
    moreover have "c / 9007199254740992 \<le> c - y" using assms(3) by (simp add: algebra_simps)
    ultimately have "c / 9007199254740992 \<le> ulp y / 2" by linarith
    then have "c \<le> 4503599627370496 * ulp y" by (simp add: field_simps)
    then have c: "c \<le> 2 powi (expo y)" by (simp add: two52_ulp)
    show False
    proof (cases "- 1022 \<le> ilog2 y")
      case True
      then have "expo y = ilog2 y" by (simp add: expo_def)
      then have "c \<le> y" using c ilog2_bounds(1)[OF \<open>0 < y\<close>] by simp
      then show False using yc by simp
    next
      case False
      then have "expo y = - 1022" by (simp add: expo_def)
      then have "c \<le> 2 powi (- 1022)" using c by simp
      moreover have "(2::rat) powi (- 1022) < 1"
        by (simp add: power_int_minus inverse_less_1_iff)
      ultimately show False using assms(1) by linarith
    qed
  qed
  then show ?thesis using le by simp
qed

lemma floor_round53:
  assumes "0 \<le> z" and "z + 1 \<le> 9007199254740992" and "of_int z \<le> x"
    and "x \<le> of_int (z + 1) * (1 - 1 / 9007199254740992)"
  shows "\<lfloor>round53 x\<rfloor> = z"
proof -
  have "z \<le> 9007199254740992" using assms(2) by simp
  then have "round53 (of_int z) = of_int z" using round53_int[OF assms(1)] by simp
  then have lo: "of_int z \<le> round53 x" using round53_mono[OF assms(3)] by simp
  have c: "round53 (of_int (z + 1)) = of_int (z + 1)" using round53_int[of "z + 1"] assms(1,2) by simp
  have "(1::rat) \<le> of_int (z + 1)" using assms(1) by simp
  from round53_below[OF this c assms(4)] have hi: "round53 x < of_int z + 1" by simp
  show ?thesis using lo hi by (simp add: floor_eq_iff)
qed

section \<open>Arithmetic on doubles\<close>

lemma small_below_overflow: "a \<le> 9007199254740992 \<Longrightarrow> a < (2::rat) powi 1024"
proof -
  assume "a \<le> 9007199254740992"
  also have "(9007199254740992::rat) = 2 powi 53" by simp
  also have "\<dots> < 2 powi 1024" by (rule power_int_strict_increasing) simp_all
  finally show ?thesis .
qed

lemma fl_signed_pos: "round53 a < 2 powi 1024 \<Longrightarrow> fl_signed False a = Fin (round53 a)"
  by (simp add: fl_signed_def Let_def del: power_int_numeral)

lemma fl_nonneg: "0 \<le> a \<Longrightarrow> fl a = fl_signed False a"
  by (simp add: fl_def)

lemma round53_le: "a \<le> c \<Longrightarrow> round53 c = c \<Longrightarrow> round53 a \<le> c"
  using round53_mono[of a c] by simp

lemma fl_signed_bounded:
  assumes "a \<le> c" and "round53 c = c" and "c \<le> 9007199254740992"
  shows "fl_signed False a = Fin (round53 a)"
  using round53_le[OF assms(1,2)] assms(3) small_below_overflow[of "round53 a"]
  by (simp add: fl_signed_pos)

lemma round53_nat: "n \<le> 9007199254740992 \<Longrightarrow> round53 (of_nat n) = of_nat n"
  using round53_int[of "int n"] by simp

lemma fl_signed_nat: "n \<le> 9007199254740992 \<Longrightarrow> fl_signed False (of_nat n) = Fin (of_nat n)"
proof -
  assume n: "n \<le> 9007199254740992"
  then have "(of_nat n :: rat) \<le> of_nat 9007199254740992" by (simp only: of_nat_le_iff)
  then have "(of_nat n :: rat) \<le> 9007199254740992" by simp
  then show ?thesis
    using round53_nat[OF n] small_below_overflow[of "of_nat n"] by (simp add: fl_signed_pos)
qed

lemma fl_nat: "n \<le> 9007199254740992 \<Longrightarrow> fl (of_nat n) = Fin (of_nat n)"
  by (simp add: fl_nonneg fl_signed_nat)

lemma below_overflow: "a \<le> 2 powi k \<Longrightarrow> k < 1024 \<Longrightarrow> a < (2::rat) powi 1024"
proof -
  assume "a \<le> 2 powi k" and k: "k < 1024"
  moreover have "(2::rat) powi k < 2 powi 1024" using k by (intro power_int_strict_increasing) simp_all
  ultimately show ?thesis by linarith
qed

lemma round53_at:
  assumes "2 powi e \<le> a" and "a < 2 powi (e + 1)" and "- 1022 \<le> e"
  shows "round53 a = of_int (round_even (a / 2 powi (e - 52))) * 2 powi (e - 52)"
proof -
  have pos: "0 < a" using assms(1) by (rule less_le_trans[rotated]) simp
  have "ilog2 a = e" using assms(1,2) by (rule ilog2_unique)
  then have "ulp a = 2 powi (e - 52)" using assms(3) by (simp add: ulp_def expo_def)
  then show ?thesis using pos by (simp add: round53_def)
qed

lemma fl_int: "\<bar>n\<bar> \<le> 9007199254740992 \<Longrightarrow> fl (of_int n) = Fin (of_int n)"
proof (cases "0 \<le> n")
  case True
  assume "\<bar>n\<bar> \<le> 9007199254740992"
  then have n: "n \<le> 9007199254740992" using True by simp
  then have "(of_int n :: rat) \<le> of_int 9007199254740992" by (simp only: of_int_le_iff)
  then have "(of_int n :: rat) \<le> 9007199254740992" by simp
  then show ?thesis
    using round53_int[OF True n] small_below_overflow[of "of_int n"] True
    by (simp add: fl_nonneg fl_signed_pos)
next
  case False
  assume "\<bar>n\<bar> \<le> 9007199254740992"
  then have n: "- n \<le> 9007199254740992" and p: "0 \<le> - n" using False by simp_all
  then have "(of_int (- n) :: rat) \<le> of_int 9007199254740992" by (simp only: of_int_le_iff)
  then have b: "(of_int (- n) :: rat) \<le> 9007199254740992" by simp
  have r: "round53 (- of_int n) = - of_int n" using round53_int[OF p n] by simp
  have "- of_int n < (2::rat) powi 1024" using small_below_overflow[OF b] by simp
  then show ?thesis
    using False r by (simp add: fl_def fl_signed_def Let_def not_le del: power_int_numeral)
qed

lemma round_even_le_two53:
  assumes "0 < a"
  shows "0 \<le> round_even (a / ulp a)" and "round_even (a / ulp a) \<le> 9007199254740992"
proof -
  have "0 \<le> a / ulp a" using assms by (simp add: zero_le_divide_iff)
  then show "0 \<le> round_even (a / ulp a)"
    using round_even_range(1)[of "a / ulp a"] by (simp add: order_trans[of 0 "\<lfloor>a / ulp a\<rfloor>"])
  have "\<lfloor>a / ulp a\<rfloor> < 9007199254740992"
    using scaled_upper[OF assms] by (simp add: floor_less_iff)
  then show "round_even (a / ulp a) \<le> 9007199254740992"
    using round_even_range(2)[of "a / ulp a"] by linarith
qed

lemma round53_idem: "round53 (round53 a) = round53 a"
proof (cases "0 < a")
  case False
  then show ?thesis by (simp add: round53_def)
next
  case True
  let ?j = "round_even (a / ulp a)"
  have r: "round53 a = of_int ?j * 2 powi (expo a - 52)"
    using True by (simp add: round53_def ulp_def)
  show ?thesis
  proof (cases "?j = 0")
    case True
    then show ?thesis unfolding r by (simp add: round53_def)
  next
    case False
    then have "0 < ?j" using round_even_le_two53(1)[OF True] by simp
    moreover note round_even_le_two53(2)[OF True]
    moreover have "- 1074 \<le> expo a - 52" by (simp add: expo_def)
    ultimately show ?thesis
      unfolding r by (rule round53_exact)
  qed
qed

lemma round53_zero [simp]: "round53 0 = 0"
  by (simp add: round53_def)

lemma is_double_zero [simp]: "is_double 0"
  using small_below_overflow[of 0] by (simp add: is_double_def del: power_int_numeral)

lemma is_double_round53: "round53 a < 2 powi 1024 \<Longrightarrow> is_double (round53 a)"
  by (simp add: is_double_def round53_idem del: power_int_numeral)







lemma js_add_Fin: "js_add (Fin a) (Fin b) = fl (a + b)"
  by (simp add: js_add_def)


lemma js_mul_Fin: "js_mul (Fin a) (Fin b) = fl_signed ((a < 0) \<noteq> (b < 0)) (\<bar>a\<bar> * \<bar>b\<bar>)"
  by (simp add: js_mul_def mag_def)

lemma js_mul_nonneg: "0 \<le> r \<Longrightarrow> 0 \<le> m \<Longrightarrow> js_mul (Fin r) (Fin m) = fl_signed False (r * m)"
  by (simp add: js_mul_Fin)

lemma js_div_Fin:
  "js_div (Fin a) (Fin b) =
     (if b = 0 then (if a = 0 then NaN else inf_of (a < 0))
      else fl_signed ((a < 0) \<noteq> (b < 0)) (\<bar>a\<bar> / \<bar>b\<bar>))"
  by (simp add: js_div_def mag_def)

lemma js_add_nat:
  "m + n \<le> 9007199254740992 \<Longrightarrow> js_add (Fin (of_nat m)) (Fin (of_nat n)) = Fin (of_nat (m + n))"
  using fl_nat[of "m + n"] by (simp add: js_add_Fin)

lemma js_mul_nat:
  "m * n \<le> 9007199254740992 \<Longrightarrow> js_mul (Fin (of_nat m)) (Fin (of_nat n)) = Fin (of_nat (m * n))"
  using fl_signed_nat[of "m * n"] by (simp add: js_mul_Fin)


lemma js_div_pos: "0 \<le> a \<Longrightarrow> 0 < b \<Longrightarrow> js_div (Fin a) (Fin b) = fl_signed False (a / b)"
  by (simp add: js_div_Fin)

text \<open>
  The floor of a quotient of a non-negative by a positive number is \<open>z\<close> when the exact
  quotient lies between \<open>z\<close> and just below \<open>z + 1\<close>.
\<close>

lemma js_floor_div:
  assumes "0 \<le> a" and "0 < b" and "0 \<le> z" and "z + 1 \<le> 9007199254740992"
    and "of_int z \<le> a / b" and "a / b \<le> of_int (z + 1) * (1 - 1 / 9007199254740992)"
  shows "js_floor (js_div (Fin a) (Fin b)) = Fin (of_int z)"
proof -
  have f: "\<lfloor>round53 (a / b)\<rfloor> = z" using assms(3-6) by (rule floor_round53)
  then have "round53 (a / b) < of_int z + 1" by (simp add: floor_eq_iff)
  moreover have "(of_int (z + 1) :: rat) \<le> of_int 9007199254740992"
    using assms(4) by (simp only: of_int_le_iff)
  ultimately have "round53 (a / b) \<le> 9007199254740992" by simp
  then have "round53 (a / b) < 2 powi 1024" by (rule small_below_overflow)
  then show ?thesis
    using assms(1,2) f by (simp add: js_div_pos fl_signed_pos)
qed

section \<open>Duration strings\<close>

lemma digit_cases:
  assumes "is_digit_in 10 c"
  shows "48 \<le> (of_char c :: nat) \<and> (of_char c :: nat) \<le> 57"
  using assms by (auto simp add: is_digit_in_def digit_of_def Let_def split: if_splits)

lemma digit_not_ws: "is_digit_in 10 c \<Longrightarrow> \<not> is_ws c"
  by (drule digit_cases) (auto simp add: is_ws_def)

lemma digit_not_special:
  assumes "is_digit_in 10 c"
  shows "c \<noteq> CHR '':''" "c \<noteq> CHR ''+''" "c \<noteq> CHR ''-''" "c \<noteq> CHR ''x''" "c \<noteq> CHR ''X''"
    "c \<noteq> CHR ''o''" "c \<noteq> CHR ''O''" "c \<noteq> CHR ''b''" "c \<noteq> CHR ''B''" "c \<noteq> CHR ''I''"
  using digit_cases[OF assms] by auto

lemma trim_digits:
  assumes "all_digits s"
  shows "js_trim s = s"
proof -
  from assms obtain c cs where s: "s = c # cs" and c: "is_digit_in 10 c"
    by (cases s) (auto simp add: all_digits_def)
  have 1: "dropWhile is_ws s = s"
    using s c by (simp add: digit_not_ws)
  from assms have "is_digit_in 10 (last s)"
    by (auto simp add: all_digits_def list_all_iff)
  then have "\<not> is_ws (hd (rev s))"
    using assms by (simp add: digit_not_ws hd_rev all_digits_def)
  moreover have "rev s \<noteq> []" using s by simp
  ultimately have 2: "dropWhile is_ws (rev s) = rev s"
    by (cases "rev s") auto
  show ?thesis by (simp add: js_trim_def 1 2)
qed

lemma decimal_literal_digits:
  assumes "all_digits s"
  shows "decimal_literal s = fl (of_nat (digits_value 10 s))"
proof -
  have t: "takeWhile (is_digit_in 10) s = s" and dr: "dropWhile (is_digit_in 10) s = []"
    using assms by (auto simp add: all_digits_def list_all_iff)
  show ?thesis
    using assms
    by (simp add: decimal_literal_def t dr exponent_part_def all_digits_def digits_value_def)
qed

lemma numeric_literal_digits:
  assumes "all_digits s"
  shows "numeric_literal s = fl (of_nat (digits_value 10 s))"
proof -
  from assms obtain c cs where s: "s = c # cs" and c: "is_digit_in 10 c"
    and cs: "list_all (is_digit_in 10) cs"
    by (cases s) (auto simp add: all_digits_def)
  have inf: "s \<noteq> ''Infinity''"
    using s c digit_not_special(10)[OF c] by auto
  have sl: "signed_literal s = fl (of_nat (digits_value 10 s))"
    using s digit_not_special[OF c] inf decimal_literal_digits[OF assms]
    by (simp add: signed_literal_def unsigned_literal_def)
  show ?thesis
  proof (cases cs)
    case Nil
    then show ?thesis using s sl by simp
  next
    case (Cons x xs)
    then have "is_digit_in 10 x" using cs by simp
    from digit_not_special[OF this] show ?thesis
      using s Cons sl by simp
  qed
qed

lemma js_Number_digits:
  assumes "all_digits s"
  shows "js_Number s = fl (of_nat (digits_value 10 s))"
  using assms by (simp add: js_Number_def trim_digits numeric_literal_digits all_digits_def)

lemma js_parseInt_digits:
  assumes "all_digits s"
  shows "js_parseInt s = fl (of_nat (digits_value 10 s))"
proof -
  from assms obtain c cs where s: "s = c # cs" and c: "is_digit_in 10 c"
    and cs: "list_all (is_digit_in 10) cs"
    by (cases s) (auto simp add: all_digits_def)
  have 1: "dropWhile is_ws s = s"
    using s c by (simp add: digit_not_ws)
  have t: "takeWhile (is_digit_in 10) s = s"
    using assms by (auto simp add: all_digits_def list_all_iff)
  have sg: "(case s of [] \<Rightarrow> (False, s)
                      | c # r \<Rightarrow> (if c = CHR ''-'' then (True, r)
                                   else if c = CHR ''+'' then (False, r)
                                   else (False, s))) = (False, s)"
    using s digit_not_special[OF c] by simp
  have r: "(case s of z # x # r \<Rightarrow> (if z = CHR ''0'' \<and> (x = CHR ''x'' \<or> x = CHR ''X'')
                                         then (16, r) else (10, s))
                        | _ \<Rightarrow> (10::nat, s)) = (10, s)"
  proof (cases cs)
    case Nil
    then show ?thesis using s by simp
  next
    case (Cons x xs)
    then have "is_digit_in 10 x" using cs by simp
    from digit_not_special[OF this] show ?thesis using s Cons by simp
  qed
  have ne: "s \<noteq> []" using s by simp
  show ?thesis
    unfolding js_parseInt_def Let_def 1 sg prod.case r t
    using ne by simp
qed

lemma split_on_none:
  "c \<notin> set s \<Longrightarrow> split_on c s = [s]"
  by (induction s) auto

lemma split_on_first:
  "c \<notin> set a \<Longrightarrow> split_on c (a @ c # rest) = a # split_on c rest"
  by (induction a) auto

lemma digits_no_colon: "all_digits s \<Longrightarrow> CHR '':'' \<notin> set s"
  using digit_not_special(1) by (auto simp add: all_digits_def list_all_iff)

lemma parseDuration_hms:
  assumes "all_digits h" and "all_digits m" and "all_digits s"
    and b: "digits_value 10 h * 3600 + digits_value 10 m * 60 + digits_value 10 s
              \<le> 9007199254740992"
  shows "parseDuration (h @ '':'' @ m @ '':'' @ s)
      = Fin (of_nat (digits_value 10 h * 3600 + digits_value 10 m * 60 + digits_value 10 s))"
proof -
  have 3: "split_on (CHR '':'') (h @ '':'' @ m @ '':'' @ s) = [h, m, s]"
    using assms by (simp add: split_on_first split_on_none digits_no_colon)
  have c: "(3600::rat) = of_nat 3600" "(60::rat) = of_nat 60" by simp_all
  from b have bs: "digits_value 10 h \<le> 9007199254740992"
    "digits_value 10 m \<le> 9007199254740992" "digits_value 10 s \<le> 9007199254740992"
    "digits_value 10 h * 3600 \<le> 9007199254740992"
    "digits_value 10 m * 60 \<le> 9007199254740992"
    "digits_value 10 h * 3600 + digits_value 10 m * 60 \<le> 9007199254740992"
    by simp_all
  show ?thesis
    unfolding parseDuration_def 3 c
    using assms(1-3) bs b
    by (simp add: js_Number_digits fl_nat js_mul_nat js_add_nat
        del: of_nat_numeral of_nat_mult of_nat_add)
qed

lemma parseDuration_ms:
  assumes "all_digits m" and "all_digits s"
    and b: "digits_value 10 m * 60 + digits_value 10 s \<le> 9007199254740992"
  shows "parseDuration (m @ '':'' @ s) = Fin (of_nat (digits_value 10 m * 60 + digits_value 10 s))"
proof -
  have 2: "split_on (CHR '':'') (m @ '':'' @ s) = [m, s]"
    using assms by (simp add: split_on_first split_on_none digits_no_colon)
  have c: "(60::rat) = of_nat 60" by simp
  from b have bs: "digits_value 10 m \<le> 9007199254740992"
    "digits_value 10 s \<le> 9007199254740992" "digits_value 10 m * 60 \<le> 9007199254740992"
    by simp_all
  show ?thesis
    unfolding parseDuration_def 2 c
    using assms(1,2) bs b
    by (simp add: js_Number_digits fl_nat js_mul_nat js_add_nat
        del: of_nat_numeral of_nat_mult of_nat_add)
qed

lemma parseDuration_s:
  assumes "all_digits s" and b: "digits_value 10 s \<le> 9007199254740992"
  shows "parseDuration s = Fin (of_nat (digits_value 10 s))"
proof -
  have 1: "split_on (CHR '':'') s = [s]"
    using assms by (simp add: split_on_none digits_no_colon)
  show ?thesis
    unfolding parseDuration_def 1
    using assms by (simp add: js_parseInt_digits fl_nat)
qed


text \<open>
  C8, as the code has it. For non-empty digit strings \<open>h\<close>, \<open>m\<close> and \<open>s\<close>,
  \<open>parseDuration\<close> reads \<open>h:m:s\<close> as hours * 3600 + minutes * 60 + seconds, \<open>m:s\<close> as
  minutes * 60 + seconds, and the bare string \<open>s\<close> as its integer value, as long as that
  number of seconds is at most \<open>2 ^ 53\<close>, which is 9007199254740992: up to there every
  field, product and sum is a double.
\<close>

theorem parseDuration_forms:
  assumes "all_digits h" and "all_digits m" and "all_digits s"
  shows "(digits_value 10 h * 3600 + digits_value 10 m * 60 + digits_value 10 s
            \<le> 9007199254740992 \<longrightarrow>
          parseDuration (h @ '':'' @ m @ '':'' @ s)
            = Fin (of_nat (digits_value 10 h * 3600 + digits_value 10 m * 60 + digits_value 10 s)))
       \<and> (digits_value 10 m * 60 + digits_value 10 s \<le> 9007199254740992 \<longrightarrow>
          parseDuration (m @ '':'' @ s)
            = Fin (of_nat (digits_value 10 m * 60 + digits_value 10 s)))
       \<and> (digits_value 10 s \<le> 9007199254740992 \<longrightarrow>
          parseDuration s = Fin (of_nat (digits_value 10 s)))"
  using parseDuration_hms[OF assms] parseDuration_ms[OF assms(2,3)] parseDuration_s[OF assms(3)]
  by blast

text \<open>
  The three strings of the specification: \<^verbatim>\<open>"1:02:03"\<close> is 3723 seconds,
  \<^verbatim>\<open>"02:03"\<close> is 123 and \<^verbatim>\<open>"45"\<close> is 45.
\<close>

theorem parseDuration_forms_witness:
  "all_digits ''1'' \<and> all_digits ''02'' \<and> all_digits ''03'' \<and> all_digits ''45''
   \<and> digits_value 10 ''1'' * 3600 + digits_value 10 ''02'' * 60 + digits_value 10 ''03''
        \<le> 9007199254740992
   \<and> digits_value 10 ''02'' * 60 + digits_value 10 ''03'' \<le> 9007199254740992
   \<and> digits_value 10 ''45'' \<le> 9007199254740992
   \<and> parseDuration ''1:02:03'' = Fin 3723
   \<and> parseDuration ''02:03'' = Fin 123
   \<and> parseDuration ''45'' = Fin 45"
proof -
  have d: "all_digits ''1''" "all_digits ''02''" "all_digits ''03''" "all_digits ''45''"
    by (simp_all add: all_digits_def is_digit_in_def digit_of_def)
  have v: "digits_value 10 ''1'' = 1" "digits_value 10 ''02'' = 2" "digits_value 10 ''03'' = 3"
    "digits_value 10 ''45'' = 45"
    by (simp_all add: digits_value_def digit_of_def)
  from parseDuration_forms[OF d(1) d(2) d(3)] parseDuration_forms[OF d(1) d(2) d(4)]
  show ?thesis using d by (simp add: v)
qed

text \<open>
  C8 as stated fails for long strings: the value is a double, so the bare string
  \<^verbatim>\<open>"9007199254740993"\<close>, whose integer value is \<open>2 ^ 53 + 1\<close>, is read as
  9007199254740992; and the string \<^verbatim>\<open>"2501999792984:00:01"\<close>, of 9007199254742400
  seconds and one more, is read as 9007199254742400.
\<close>

theorem parseDuration_rounds:
  "all_digits ''9007199254740993''
   \<and> digits_value 10 ''9007199254740993'' = 9007199254740993
   \<and> parseDuration ''9007199254740993'' = Fin 9007199254740992
   \<and> parseDuration ''9007199254740993'' \<noteq> Fin (of_nat (digits_value 10 ''9007199254740993''))
   \<and> all_digits ''2501999792984'' \<and> all_digits ''00'' \<and> all_digits ''01''
   \<and> digits_value 10 ''2501999792984'' * 3600 + digits_value 10 ''00'' * 60
        + digits_value 10 ''01'' = 9007199254742401
   \<and> parseDuration ''2501999792984:00:01'' = Fin 9007199254742400"
proof -
  have d: "all_digits ''9007199254740993''" "all_digits ''2501999792984''"
    "all_digits ''00''" "all_digits ''01''"
    by (simp_all add: all_digits_def is_digit_in_def digit_of_def)
  have v: "digits_value 10 ''9007199254740993'' = 9007199254740993"
    "digits_value 10 ''2501999792984'' = 2501999792984"
    "digits_value 10 ''00'' = 0" "digits_value 10 ''01'' = 1"
    by (simp_all add: digits_value_def digit_of_def)
  have f1: "\<lfloor>(9007199254740993::rat) / 2\<rfloor> = 4503599627370496"
    and f2: "\<lfloor>(9007199254742401::rat) / 2\<rfloor> = 4503599627371200"
    by (simp_all add: floor_eq_iff)
  have "round53 9007199254740993 = 9007199254740992"
    by (subst round53_at[of 53]) (simp_all add: round_even_def Let_def f1)
  then have r1: "fl 9007199254740993 = Fin 9007199254740992"
    using small_below_overflow[of 9007199254740992] by (simp add: fl_nonneg fl_signed_pos)
  have "round53 9007199254742400 = 9007199254742400"
    using round53_exact[of 4503599627371200 1] by simp
  then have r2: "js_mul (Fin 2501999792984) (Fin 3600) = Fin 9007199254742400"
    "js_add (Fin 9007199254742400) (Fin 0) = Fin 9007199254742400"
    using below_overflow[of 9007199254742400 54]
    by (simp_all add: js_mul_Fin js_add_Fin fl_nonneg fl_signed_pos)
  have "round53 9007199254742401 = 9007199254742400"
    by (subst round53_at[of 53]) (simp_all add: round_even_def Let_def f2)
  then have r3: "js_add (Fin 9007199254742400) (Fin 1) = Fin 9007199254742400"
    using below_overflow[of 9007199254742400 54] by (simp add: js_add_Fin fl_nonneg fl_signed_pos)
  have r4: "fl 2501999792984 = Fin 2501999792984" "fl 0 = Fin 0" "fl 1 = Fin 1"
    "js_mul (Fin 0) (Fin 60) = Fin 0"
    using fl_int[of 2501999792984] fl_int[of 0] fl_int[of 1] fl_signed_nat[of 0]
    by (simp_all add: js_mul_Fin)
  note r = r1 r2 r3 r4
  have 1: "split_on (CHR '':'') ''9007199254740993'' = [''9007199254740993'']"
    and 3: "split_on (CHR '':'') ''2501999792984:00:01'' = [''2501999792984'', ''00'', ''01'']"
    by simp_all
  have p1: "parseDuration ''9007199254740993'' = Fin 9007199254740992"
    unfolding parseDuration_def 1 using d(1) by (simp add: js_parseInt_digits v r)
  have p3: "parseDuration ''2501999792984:00:01'' = Fin 9007199254742400"
    unfolding parseDuration_def 3 using d by (simp add: js_Number_digits v r)
  show ?thesis using d v p1 p3 by simp
qed

section \<open>Resolution tags\<close>

lemma targetResolution_recognised:
  "targetResolution (d\<lparr>resolution := Some ''480p''\<rparr>) = JStr ''854x480''"
  "targetResolution (d\<lparr>resolution := Some ''720p''\<rparr>) = JStr ''1280x720''"
  "targetResolution (d\<lparr>resolution := Some ''1080p''\<rparr>) = JStr ''1920x1080''"
  "targetResolution (d\<lparr>resolution := None\<rparr>) = JStr ''1280x720''"
  by (simp_all add: targetResolution_def resolutionMap_def property_key_def
      object_prototype_keys_def)

lemma targetResolution_default:
  assumes "property_key (resolution d) \<notin> {''480p'', ''720p'', ''1080p''}"
    and "property_key (resolution d) \<notin> set object_prototype_keys"
  shows "targetResolution d = JStr ''1280x720''"
  using assms by (simp add: targetResolution_def resolutionMap_def)

text \<open>
  C9. The three tags map as the table says and an absent tag gives \<^verbatim>\<open>1280x720\<close>
  (\<open>targetResolution_recognised\<close>), and so does every other tag that names no member of
  \<^verbatim>\<open>Object.prototype\<close> (\<open>targetResolution_default\<close>). The unrecognised tag
  \<^verbatim>\<open>constructor\<close>, however, reads the inherited member of the object literal, which is
  truthy, so the default of \<^verbatim>\<open>||\<close> is not taken: the target resolution is that member
  and not \<^verbatim>\<open>1280x720\<close>.
\<close>

theorem targetResolution_inherited_member:
  "targetResolution (d\<lparr>resolution := Some ''constructor''\<rparr>) = JInherited ''constructor''
   \<and> targetResolution (d\<lparr>resolution := Some ''constructor''\<rparr>) \<noteq> JStr ''1280x720''"
  by (simp add: targetResolution_def resolutionMap_def property_key_def
      object_prototype_keys_def)


section \<open>The start offset of a clip\<close>








text \<open>The start offset that the download of the clip \<open>i\<close> is given.\<close>

lemma download_start:
  assumes "duration_result e i = Inr out"
  shows "ActDownload (first_url d)
           (startTime (random_result e i) (maxStart (parseDuration (js_trim out)) (interval d)))
           (interval d) (clipFile ws i)
         \<in> set (acts (clip_body e d ws n i r))"
  using assms
  by (simp add: clip_body_def getVideoDuration_def act_def set_job_def Let_def
      split: option.splits)





section \<open>The run of a job and its clip loop\<close>

text \<open>
  A request is accepted exactly when it has a URL, and the job that \<^verbatim>\<open>processMontage\<close>
  then finds in the registry is the one just created.
\<close>

lemma generate_montage_accepts:
  "(fst (generate_montage jobs jobId now d) = Accepted jobId Queued) = (videoUrls d \<noteq> [])"
  by (simp add: generate_montage_def)

lemma processMontage_accepted:
  assumes "videoUrls d \<noteq> []"
  shows "processMontage e fuel (snd (generate_montage jobs jobId now d)) jobId d
           = Some (pipeline e fuel jobId d (new_job jobId now d))"
  using assms by (simp add: processMontage_def generate_montage_def)

lemma pipeline_reaches_loop:
  assumes "which_ok e ''ffmpeg''" and "which_ok e ''yt-dlp''" and "mkdtemp_result e = Inr ws"
  shows "pipeline e fuel jobId d j =
     (case clip_loop fuel e d ws (clipsNeeded d) 0 (loop_start j) of
        OutOfFuel (i, r) \<Rightarrow> OutOfFuel r
      | Done (i, r) \<Rightarrow> Done (finish_montage e jobId d ws r))"
  using assms by (simp add: pipeline_def commandExists_def loop_start_def Let_def)

lemma loop_start_simps:
  "clips (loop_start j) = []"
  "acts (loop_start j) = [ActWhich ''ffmpeg'', ActWhich ''yt-dlp'', ActMkdtemp]"
  "rjob (loop_start j) = j\<lparr>status := Processing, progress := Fin 20\<rparr>"
  "snaps (loop_start j) = [j, j\<lparr>status := Processing, progress := Fin 10\<rparr>,
      j\<lparr>status := Processing, progress := Fin 20\<rparr>]"
  by (simp_all add: loop_start_def act_def set_job_def Let_def)

lemma clip_loop_invariant:
  assumes "P i r"
    and "\<And>k s. P k s \<Longrightarrow> js_lt (Fin (of_nat k)) n \<Longrightarrow> P (Suc k) (clip_body e d ws n k s)"
  shows "P (fst (the_run (clip_loop fuel e d ws n i r))) (snd (the_run (clip_loop fuel e d ws n i r)))"
  using assms(1)
proof (induction fuel arbitrary: i r)
  case 0
  then show ?case by simp
next
  case (Suc fuel)
  show ?case
  proof (cases "js_lt (Fin (of_nat i)) n")
    case True
    from assms(2)[OF Suc.prems True] have "P (Suc i) (clip_body e d ws n i r)" .
    from Suc.IH[OF this] show ?thesis using True by simp
  next
    case False
    then show ?thesis using Suc.prems by simp
  qed
qed

lemma clip_loop_finite:
  "is_done (clip_loop fuel e d ws (Fin (of_nat m)) i r) = (m - i \<le> fuel)
   \<and> fst (the_run (clip_loop fuel e d ws (Fin (of_nat m)) i r))
       = (if m - i \<le> fuel then max i m else i + fuel)"
proof (induction fuel arbitrary: i r)
  case 0
  then show ?case by auto
next
  case (Suc fuel)
  show ?case
  proof (cases "i < m")
    case True
    then show ?thesis using Suc.IH[of "Suc i" "clip_body e d ws (Fin (of_nat m)) i r"]
      by (auto simp add: max_def)
  next
    case False
    then show ?thesis by (auto simp add: max_def)
  qed
qed






lemma rjob_clip_body:
  "\<exists>p. rjob (clip_body e d ws n i r) = (rjob r)\<lparr>progress := p\<rparr>"
proof (cases "clip_ok e i")
  case True
  then have "rjob (clip_body e d ws n i r) = (rjob r)\<lparr>progress := loop_progress i n\<rparr>"
    by (auto simp add: clip_body_def clip_ok_def getVideoDuration_def act_def set_job_def Let_def
        split: sum.splits option.splits)
  then show ?thesis by blast
next
  case False
  then have "rjob (clip_body e d ws n i r) = (rjob r)\<lparr>progress := progress (rjob r)\<rparr>"
    by (auto simp add: clip_body_def clip_ok_def getVideoDuration_def act_def set_job_def Let_def
        split: sum.splits option.splits)
  then show ?thesis by blast
qed

lemma snaps_clip_body:
  "snaps (clip_body e d ws n k r)
     = snaps r @ (if clip_ok e k then [(rjob r)\<lparr>progress := loop_progress k n\<rparr>] else [])"
  by (auto simp add: clip_body_def clip_ok_def getVideoDuration_def act_def set_job_def Let_def
      split: sum.splits option.splits)




lemma rjob_after_loop:
  "\<exists>p. rjob (snd (the_run (clip_loop fuel e d ws n i r))) = (rjob r)\<lparr>progress := p\<rparr>"
proof (rule clip_loop_invariant[where P = "\<lambda>k s. \<exists>p. rjob s = (rjob r)\<lparr>progress := p\<rparr>"])
  have "rjob r = (rjob r)\<lparr>progress := progress (rjob r)\<rparr>" by simp
  then show "\<exists>p. rjob r = (rjob r)\<lparr>progress := p\<rparr>" by blast
next
  fix k and s :: run
  assume "\<exists>p. rjob s = (rjob r)\<lparr>progress := p\<rparr>"
  then obtain p where p: "rjob s = (rjob r)\<lparr>progress := p\<rparr>" by blast
  obtain q where "rjob (clip_body e d ws n k s) = (rjob s)\<lparr>progress := q\<rparr>"
    using rjob_clip_body by blast
  then have "rjob (clip_body e d ws n k s) = (rjob r)\<lparr>progress := q\<rparr>"
    using p by simp
  then show "\<exists>p. rjob (clip_body e d ws n k s) = (rjob r)\<lparr>progress := p\<rparr>" by blast
qed

lemma snaps_after_loop:
  "snaps (snd (the_run (clip_loop fuel e d ws n 0 r)))
     = snaps r @ map (\<lambda>k. (rjob r)\<lparr>progress := loop_progress k n\<rparr>)
         (filter (clip_ok e) [0..<fst (the_run (clip_loop fuel e d ws n 0 r))])"
proof -
  let ?f = "\<lambda>k. (rjob r)\<lparr>progress := loop_progress k n\<rparr>"
  let ?P = "\<lambda>k s. snaps s = snaps r @ map ?f (filter (clip_ok e) [0..<k])
              \<and> (\<exists>p. rjob s = (rjob r)\<lparr>progress := p\<rparr>)"
  have "?P (fst (the_run (clip_loop fuel e d ws n 0 r))) (snd (the_run (clip_loop fuel e d ws n 0 r)))"
  proof (rule clip_loop_invariant[where P = ?P])
    have "rjob r = (rjob r)\<lparr>progress := progress (rjob r)\<rparr>" by simp
    then have "\<exists>p. rjob r = (rjob r)\<lparr>progress := p\<rparr>" by blast
    then show "?P 0 r" by simp
  next
    fix k and s :: run
    assume h: "?P k s"
    then obtain p where p: "rjob s = (rjob r)\<lparr>progress := p\<rparr>" by blast
    obtain q where "rjob (clip_body e d ws n k s) = (rjob s)\<lparr>progress := q\<rparr>"
      using rjob_clip_body by blast
    then have "rjob (clip_body e d ws n k s) = (rjob r)\<lparr>progress := q\<rparr>"
      using p by simp
    then have 1: "\<exists>p. rjob (clip_body e d ws n k s) = (rjob r)\<lparr>progress := p\<rparr>" by blast
    have 2: "snaps (clip_body e d ws n k s)
        = snaps r @ map ?f (filter (clip_ok e) [0..<Suc k])"
      using h p by (simp add: snaps_clip_body)
    show "?P (Suc k) (clip_body e d ws n k s)" using 1 2 by blast
  qed
  then show ?thesis by blast
qed





lemma status_finish_montage:
  "writeFile_result e = None \<Longrightarrow> encode_result e = None \<Longrightarrow>
   status (rjob (finish_montage e jobId d ws r)) = Completed"
  by (simp add: finish_montage_def on_error_def act_def set_job_def Let_def)

lemma snaps_finish_montage:
  "\<exists>tl. snaps (finish_montage e jobId d ws r) = snaps r @ tl"
  by (simp add: finish_montage_def on_error_def set_job_def act_def Let_def split: option.splits)

lemma snaps_finish_montage_nonempty: "snaps (finish_montage e jobId d ws r) \<noteq> []"
  by (simp add: finish_montage_def on_error_def set_job_def act_def Let_def split: option.splits)

lemma last_snap_finish_montage:
  "last (snaps (finish_montage e jobId d ws r)) = rjob (finish_montage e jobId d ws r)"
  by (simp add: finish_montage_def on_error_def set_job_def act_def Let_def split: option.splits)

lemma job_run_finished:
  assumes "which_ok e ''ffmpeg''" and "which_ok e ''yt-dlp''" and "mkdtemp_result e = Inr ws"
    and "is_done (clip_loop fuel e d ws (clipsNeeded d) 0 (loop_start (new_job jobId now d)))"
  shows "job_done e fuel jobId now d"
    and "job_run e fuel jobId now d = finish_montage e jobId d ws
           (snd (the_run (clip_loop fuel e d ws (clipsNeeded d) 0 (loop_start (new_job jobId now d)))))"
  using assms(4) unfolding job_done_def job_run_def pipeline_reaches_loop[OF assms(1-3)]
  by (cases "clip_loop fuel e d ws (clipsNeeded d) 0 (loop_start (new_job jobId now d))"; auto)+

lemma job_run_unfinished:
  assumes "which_ok e ''ffmpeg''" and "which_ok e ''yt-dlp''" and "mkdtemp_result e = Inr ws"
    and "\<not> is_done (clip_loop fuel e d ws (clipsNeeded d) 0 (loop_start (new_job jobId now d)))"
  shows "\<not> job_done e fuel jobId now d"
    and "job_run e fuel jobId now d =
           snd (the_run (clip_loop fuel e d ws (clipsNeeded d) 0 (loop_start (new_job jobId now d))))"
  using assms(4) unfolding job_done_def job_run_def pipeline_reaches_loop[OF assms(1-3)]
  by (cases "clip_loop fuel e d ws (clipsNeeded d) 0 (loop_start (new_job jobId now d))"; auto)+

lemma job_done_loop_done:
  assumes "which_ok e ''ffmpeg''" and "which_ok e ''yt-dlp''" and "mkdtemp_result e = Inr ws"
    and "job_done e fuel jobId now d"
  shows "is_done (clip_loop fuel e d ws (clipsNeeded d) 0 (loop_start (new_job jobId now d)))"
  using assms job_run_unfinished(1) by blast

lemma floor_sample: "js_floor (js_div (Fin 95) (Fin 30)) = Fin 3"
proof -
  have "js_floor (js_div (Fin 95) (Fin 30)) = Fin (of_int 3)"
    by (rule js_floor_div) simp_all
  then show ?thesis by simp
qed

lemma floor_sixteen: "js_floor (js_div (Fin 160) (Fin 10)) = Fin 16"
proof -
  have "js_floor (js_div (Fin 160) (Fin 10)) = Fin (of_int 16)"
    by (rule js_floor_div) simp_all
  then show ?thesis by simp
qed


lemma clipsNeeded_sample: "clipsNeeded sample_data = Fin (of_nat 3)"
  by (simp add: clipsNeeded_def sample_data_def floor_sample)

lemma clipsNeeded_sixteen: "clipsNeeded data_sixteen = Fin (of_nat 16)"
  by (simp add: clipsNeeded_def data_sixteen_def sample_data_def floor_sixteen)

lemma clip_ok_env_ok: "clip_ok env_ok i"
  by (simp add: clip_ok_def env_ok_def)

lemma env_ok_reaches_loop:
  "which_ok env_ok ''ffmpeg''" "which_ok env_ok ''yt-dlp''"
  "mkdtemp_result env_ok = Inr ''/tmp/montage-Ab12''"
  by (simp_all add: env_ok_def)

lemma job_done_sample:
  assumes "which_ok e ''ffmpeg''" and "which_ok e ''yt-dlp''" and "mkdtemp_result e = Inr ws"
  shows "job_done e 3 jobId now sample_data"
  using job_run_finished(1)[OF assms, of 3 sample_data jobId now]
    clip_loop_finite[of 3 e sample_data ws 3 0 "loop_start (new_job jobId now sample_data)"]
  by (simp add: clipsNeeded_sample)


section \<open>The dependency check\<close>

text \<open>
  C5. When \<^verbatim>\<open>ffmpeg\<close> or \<^verbatim>\<open>yt-dlp\<close> is not found, the run ends after the two checks:
  the registry sees the job as created (queued, progress 0) and then failed with the fixed
  message, progress still 0; the job is never in the state of processing.
\<close>

theorem missing_dependency_fails:
  assumes "\<not> which_ok e ''ffmpeg'' \<or> \<not> which_ok e ''yt-dlp''"
  shows "job_done e fuel jobId now d
    \<and> snaps (job_run e fuel jobId now d) =
        [new_job jobId now d,
         (new_job jobId now d)\<lparr>status := Failed,
            error := Some ''Missing dependencies: FFmpeg and yt-dlp are required''\<rparr>]
    \<and> rjob (job_run e fuel jobId now d) = last (snaps (job_run e fuel jobId now d))
    \<and> status (new_job jobId now d) = Queued
    \<and> progress (rjob (job_run e fuel jobId now d)) = Fin 0
    \<and> acts (job_run e fuel jobId now d) = [ActWhich ''ffmpeg'', ActWhich ''yt-dlp'']"
  using assms
  by (auto simp add: job_done_def job_run_def pipeline_def commandExists_def set_job_def
      act_def new_job_def Let_def)

theorem missing_dependency_fails_witness:
  "\<not> which_ok env_no_ffmpeg ''ffmpeg''
   \<and> job_done env_no_ffmpeg 0 ''job-1'' 0 sample_data
   \<and> map status (snaps (job_run env_no_ffmpeg 0 ''job-1'' 0 sample_data)) = [Queued, Failed]
   \<and> map progress (snaps (job_run env_no_ffmpeg 0 ''job-1'' 0 sample_data)) = [Fin 0, Fin 0]
   \<and> error (rjob (job_run env_no_ffmpeg 0 ''job-1'' 0 sample_data))
       = Some ''Missing dependencies: FFmpeg and yt-dlp are required''"
proof -
  have h: "\<not> which_ok env_no_ffmpeg ''ffmpeg'' \<or> \<not> which_ok env_no_ffmpeg ''yt-dlp''"
    by (simp add: env_no_ffmpeg_def)
  from missing_dependency_fails[OF h, of 0 "''job-1''" 0 sample_data]
  show ?thesis by (simp add: env_no_ffmpeg_def new_job_def)
qed


section \<open>Failure of single clips\<close>




section \<open>The number of clips and their source\<close>





section \<open>Termination of the clip loop\<close>

text \<open>
  The counter of the loop: below \<open>2 ^ 53\<close> the increment of the double is the successor,
  and at \<open>2 ^ 53\<close> the increment leaves the double as it is.
\<close>

lemma counter_exact:
  "i < 9007199254740992 \<Longrightarrow> js_add (Fin (of_nat i)) (Fin 1) = Fin (of_nat (Suc i))"
  using js_add_nat[of i 1] by simp

lemma counter_stalls: "js_add (Fin 9007199254740992) (Fin 1) = Fin 9007199254740992"
proof -
  have f: "\<lfloor>(9007199254740993::rat) / 2\<rfloor> = 4503599627370496" by (simp add: floor_eq_iff)
  have "round53 9007199254740993 = 9007199254740992"
    by (subst round53_at[of 53]) (simp_all add: round_even_def Let_def f)
  then show ?thesis
    using small_below_overflow[of 9007199254740992]
    by (simp add: js_add_Fin fl_nonneg fl_signed_pos)
qed

lemma fl_signed_overflow: "2 powi 1024 \<le> round53 a \<Longrightarrow> fl_signed neg a = inf_of neg"
  by (simp add: fl_signed_def inf_of_def Let_def del: power_int_numeral)

lemma clipsNeeded_positive:
  assumes "montageLength d = Fin a" and "interval d = Fin b" and "0 \<le> a" and "0 < b"
  shows "round53 (a / b) < 2 powi 1024 \<Longrightarrow> clipsNeeded d = Fin (of_int \<lfloor>round53 (a / b)\<rfloor>)"
    and "2 powi 1024 \<le> round53 (a / b) \<Longrightarrow> clipsNeeded d = PInf"
    and "\<lfloor>a / b\<rfloor> + 1 \<le> 9007199254740992
         \<Longrightarrow> a / b \<le> of_int (\<lfloor>a / b\<rfloor> + 1) * (1 - 1 / 9007199254740992)
         \<Longrightarrow> clipsNeeded d = Fin (of_int \<lfloor>a / b\<rfloor>)"
    and "\<lfloor>a / b\<rfloor> + 1 \<le> 9007199254740992
         \<Longrightarrow> clipsNeeded d = Fin (of_int \<lfloor>a / b\<rfloor>) \<or> clipsNeeded d = Fin (of_int (\<lfloor>a / b\<rfloor> + 1))"
proof -
  have c: "clipsNeeded d = js_floor (fl_signed False (a / b))"
    using assms by (simp add: clipsNeeded_def js_div_pos)
  have q: "0 \<le> a / b" using assms(3,4) by simp
  then have z: "0 \<le> \<lfloor>a / b\<rfloor>" by simp
  show 1: "clipsNeeded d = Fin (of_int \<lfloor>round53 (a / b)\<rfloor>)" if "round53 (a / b) < 2 powi 1024"
    unfolding c using that by (simp add: fl_signed_pos)
  show "clipsNeeded d = PInf" if "2 powi 1024 \<le> round53 (a / b)"
    unfolding c using that by (simp add: fl_signed_overflow inf_of_def)
  show "clipsNeeded d = Fin (of_int \<lfloor>a / b\<rfloor>)"
    if "\<lfloor>a / b\<rfloor> + 1 \<le> 9007199254740992"
      and "a / b \<le> of_int (\<lfloor>a / b\<rfloor> + 1) * (1 - 1 / 9007199254740992)"
    unfolding clipsNeeded_def assms(1,2)
    using assms(3,4) z that(1) of_int_floor_le[of "a / b"] that(2) by (rule js_floor_div)
  show "clipsNeeded d = Fin (of_int \<lfloor>a / b\<rfloor>) \<or> clipsNeeded d = Fin (of_int (\<lfloor>a / b\<rfloor> + 1))"
    if b: "\<lfloor>a / b\<rfloor> + 1 \<le> 9007199254740992"
  proof -
    let ?z = "\<lfloor>a / b\<rfloor>"
    have r0: "round53 (of_int ?z) = of_int ?z" using round53_int[OF z] b by simp
    have r1: "round53 (of_int (?z + 1)) = of_int (?z + 1)" using round53_int[of "?z + 1"] z b by simp
    have "a / b \<le> of_int (?z + 1)" using floor_correct[of "a / b"] by simp
    from round53_mono[OF this] have hi: "round53 (a / b) \<le> of_int (?z + 1)" unfolding r1 .
    from round53_mono[OF of_int_floor_le[of "a / b"]] have lo: "of_int ?z \<le> round53 (a / b)"
      unfolding r0 .
    have "(of_int (?z + 1) :: rat) \<le> of_int 9007199254740992" using b by (simp only: of_int_le_iff)
    then have "(of_int (?z + 1) :: rat) \<le> 9007199254740992" by (simp only: of_int_numeral)
    with hi have "round53 (a / b) \<le> 9007199254740992" by (rule order_trans)
    then have "round53 (a / b) < 2 powi 1024" by (rule small_below_overflow)
    note 1[OF this]
    moreover have "?z \<le> \<lfloor>round53 (a / b)\<rfloor>" using lo by (simp only: le_floor_iff)
    moreover have "\<lfloor>round53 (a / b)\<rfloor> \<le> ?z + 1"
      using floor_mono[OF hi] by (simp only: floor_of_int)
    ultimately show ?thesis by (cases "\<lfloor>round53 (a / b)\<rfloor> = ?z") auto
  qed
qed








text \<open>
  The decimal numbers 0.25 and 0.01 as doubles: their exact quotient is just below 25, with
  the floor 24, and the quotient that the code computes is rounded to 25.
\<close>

lemma interval_hundredth: "fl (1 / 100) = Fin (5764607523034235 / 576460752303423488)"
proof -
  have p: "(2::rat) powi (- 7 - 52) = 1 / 576460752303423488"
    by (simp add: power_int_minus inverse_eq_divide)
  have f: "\<lfloor>(144115188075855872::rat) / 25\<rfloor> = 5764607523034234" by (simp add: floor_eq_iff)
  have "round53 (1 / 100) = of_int (round_even ((1 / 100) / 2 powi (- 7 - 52))) * 2 powi (- 7 - 52)"
    by (rule round53_at) (simp_all add: power_int_minus)
  also have "\<dots> = 5764607523034235 / 576460752303423488"
    unfolding p by (simp add: round_even_def Let_def f)
  finally have r: "round53 (1 / 100) = 5764607523034235 / 576460752303423488" .
  have "round53 (1 / 100) < 2 powi 1024" unfolding r by (rule small_below_overflow) simp
  then show ?thesis using r by (simp add: fl_nonneg fl_signed_pos)
qed

lemma clipsNeeded_quarter:
  "montageLength data_quarter = Fin (1 / 4)
   \<and> interval data_quarter = Fin (5764607523034235 / 576460752303423488)
   \<and> \<lfloor>(1::rat) / 4 / (5764607523034235 / 576460752303423488)\<rfloor> = 24
   \<and> clipsNeeded data_quarter = Fin 25"
proof -
  have m: "montageLength data_quarter = Fin (1 / 4)"
    "interval data_quarter = Fin (5764607523034235 / 576460752303423488)"
    by (simp_all add: data_quarter_def sample_data_def interval_hundredth)
  have q: "(1::rat) / 4 / (5764607523034235 / 576460752303423488)
      = 144115188075855872 / 5764607523034235" by simp
  have f: "\<lfloor>(144115188075855872::rat) / 5764607523034235\<rfloor> = 24" by (simp add: floor_eq_iff)
  have p: "(2::rat) powi (4 - 52) = 1 / 281474976710656"
    by (simp add: power_int_minus inverse_eq_divide)
  have g: "\<lfloor>(40564819207303340847894502572032::rat) / 5764607523034235\<rfloor> = 7036874417766399"
    by (simp add: floor_eq_iff)
  have "round53 (144115188075855872 / 5764607523034235)
      = of_int (round_even ((144115188075855872 / 5764607523034235) / 2 powi (4 - 52))) * 2 powi (4 - 52)"
    by (rule round53_at) simp_all
  also have "\<dots> = 25"
    unfolding p by (simp add: round_even_def Let_def g)
  finally have r: "round53 (144115188075855872 / 5764607523034235) = 25" .
  have "round53 (144115188075855872 / 5764607523034235) < 2 powi 1024"
    unfolding r by (rule small_below_overflow) simp
  then have "clipsNeeded data_quarter = Fin (of_int \<lfloor>round53 (144115188075855872 / 5764607523034235)\<rfloor>)"
    using clipsNeeded_positive(1)[OF m] unfolding q by simp
  then have c: "clipsNeeded data_quarter = Fin 25" unfolding r by simp
  show ?thesis using m c unfolding q f by simp
qed




section \<open>Fatal failures\<close>

lemma failed_at_on_error:
  assumes "snaps r \<noteq> []" and "last (snaps r) = rjob r"
    and "status (rjob r) = Processing" and "progress (rjob r) = Fin p"
  shows "failed_at p msg (on_error msg r)"
proof -
  from assms(1,2) obtain pre where pre: "snaps r = pre @ [rjob r]"
    by (metis append_butlast_last_id)
  show ?thesis
    using assms(3,4)
    by (simp add: failed_at_def on_error_def set_job_def act_def Let_def pre)
qed

lemma failed_at_finish_montage:
  assumes "status (rjob r) = Processing"
  shows "writeFile_result e = Some msg \<Longrightarrow> failed_at 60 msg (finish_montage e jobId d ws r)"
    and "writeFile_result e = None \<Longrightarrow> encode_result e = Some msg \<Longrightarrow>
         failed_at 70 msg (finish_montage e jobId d ws r)"
proof -
  assume w: "writeFile_result e = Some msg"
  let ?r2 = "act (ActWriteFile (path_join ws ''clip_list.txt'')
               (clipListContent (clips (set_job (\<lambda>j. j\<lparr>progress := Fin 60\<rparr>) r))))
             (set_job (\<lambda>j. j\<lparr>progress := Fin 60\<rparr>) r)"
  have f: "finish_montage e jobId d ws r = on_error msg ?r2"
    using w by (simp add: finish_montage_def Let_def)
  show "failed_at 60 msg (finish_montage e jobId d ws r)"
    unfolding f using assms
    by (intro failed_at_on_error) (simp_all add: set_job_def act_def Let_def)
next
  assume w: "writeFile_result e = None" and c: "encode_result e = Some msg"
  let ?r2 = "act (ActWriteFile (path_join ws ''clip_list.txt'')
               (clipListContent (clips (set_job (\<lambda>j. j\<lparr>progress := Fin 60\<rparr>) r))))
             (set_job (\<lambda>j. j\<lparr>progress := Fin 60\<rparr>) r)"
  let ?r4 = "act (createMontage (path_join ws ''clip_list.txt'')
               (path_join ws (scriptName d @ ''_v01.mp4'')) (targetResolution d)
               (overlayText d) (fontSize_or_default d))
             (set_job (\<lambda>j. j\<lparr>progress := Fin 70\<rparr>) ?r2)"
  have f: "finish_montage e jobId d ws r = on_error msg ?r4"
    using w c by (simp add: finish_montage_def Let_def)
  show "failed_at 70 msg (finish_montage e jobId d ws r)"
    unfolding f using assms
    by (intro failed_at_on_error) (simp_all add: set_job_def act_def Let_def)
qed

text \<open>
  C4. With both tools present, an error thrown by the creation of the workspace, by the
  writing of the manifest or by the encoder ends the run in failure with the message of
  that error as the error field: the state stored last differs from the one before it, a
  state of processing, in the status and the error only, so the progress keeps its last
  value, which is 10, 60 and 70 respectively.
\<close>

theorem fatal_failure_recorded:
  assumes "which_ok e ''ffmpeg''" and "which_ok e ''yt-dlp''"
  shows "(mkdtemp_result e = Inl msg \<longrightarrow>
            job_done e fuel jobId now d \<and> failed_at 10 msg (job_run e fuel jobId now d))
    \<and> (mkdtemp_result e = Inr ws \<and> job_done e fuel jobId now d
         \<and> writeFile_result e = Some msg \<longrightarrow>
            failed_at 60 msg (job_run e fuel jobId now d))
    \<and> (mkdtemp_result e = Inr ws \<and> job_done e fuel jobId now d
         \<and> writeFile_result e = None \<and> encode_result e = Some msg \<longrightarrow>
            failed_at 70 msg (job_run e fuel jobId now d))"
proof (intro conjI impI)
  assume m: "mkdtemp_result e = Inl msg"
  show "job_done e fuel jobId now d"
    using assms m by (simp add: job_done_def pipeline_def commandExists_def Let_def)
  let ?r2 = "act ActMkdtemp (set_job (\<lambda>j. j\<lparr>status := Processing, progress := Fin 10\<rparr>)
      (act (ActWhich ''yt-dlp'') (act (ActWhich ''ffmpeg'')
        \<lparr>rjob = new_job jobId now d, snaps = [new_job jobId now d], acts = [], clips = []\<rparr>)))"
  have f: "job_run e fuel jobId now d = on_error msg ?r2"
    using assms m by (simp add: job_run_def pipeline_def commandExists_def Let_def)
  show "failed_at 10 msg (job_run e fuel jobId now d)"
    unfolding f by (intro failed_at_on_error) (simp_all add: set_job_def act_def Let_def)
next
  assume h: "mkdtemp_result e = Inr ws \<and> job_done e fuel jobId now d
         \<and> writeFile_result e = Some msg"
  let ?l = "clip_loop fuel e d ws (clipsNeeded d) 0 (loop_start (new_job jobId now d))"
  have dn: "is_done ?l" using job_done_loop_done[OF assms] h by blast
  have f: "job_run e fuel jobId now d = finish_montage e jobId d ws (snd (the_run ?l))"
    using job_run_finished(2)[OF assms _ dn] h by blast
  obtain p where "rjob (snd (the_run ?l)) = (rjob (loop_start (new_job jobId now d)))\<lparr>progress := p\<rparr>"
    using rjob_after_loop by blast
  then have "status (rjob (snd (the_run ?l))) = Processing"
    by (simp add: loop_start_simps)
  from failed_at_finish_montage(1)[OF this] h
  show "failed_at 60 msg (job_run e fuel jobId now d)" unfolding f by blast
next
  assume h: "mkdtemp_result e = Inr ws \<and> job_done e fuel jobId now d
         \<and> writeFile_result e = None \<and> encode_result e = Some msg"
  let ?l = "clip_loop fuel e d ws (clipsNeeded d) 0 (loop_start (new_job jobId now d))"
  have dn: "is_done ?l" using job_done_loop_done[OF assms] h by blast
  have f: "job_run e fuel jobId now d = finish_montage e jobId d ws (snd (the_run ?l))"
    using job_run_finished(2)[OF assms _ dn] h by blast
  obtain p where "rjob (snd (the_run ?l)) = (rjob (loop_start (new_job jobId now d)))\<lparr>progress := p\<rparr>"
    using rjob_after_loop by blast
  then have "status (rjob (snd (the_run ?l))) = Processing"
    by (simp add: loop_start_simps)
  from failed_at_finish_montage(2)[OF this] h
  show "failed_at 70 msg (job_run e fuel jobId now d)" unfolding f by blast
qed

theorem fatal_failure_recorded_witness:
  "which_ok env_ok ''ffmpeg'' \<and> which_ok env_ok ''yt-dlp''
   \<and> mkdtemp_result env_mkdtemp_fails = Inl ''EACCES: permission denied, mkdtemp''
   \<and> failed_at 10 ''EACCES: permission denied, mkdtemp''
        (job_run env_mkdtemp_fails 3 ''job-1'' 0 sample_data)
   \<and> mkdtemp_result env_write_fails = Inr ''/tmp/montage-Ab12''
   \<and> job_done env_write_fails 3 ''job-1'' 0 sample_data
   \<and> writeFile_result env_write_fails = Some ''ENOSPC: no space left on device, write''
   \<and> failed_at 60 ''ENOSPC: no space left on device, write''
        (job_run env_write_fails 3 ''job-1'' 0 sample_data)
   \<and> mkdtemp_result env_encode_fails = Inr ''/tmp/montage-Ab12''
   \<and> job_done env_encode_fails 3 ''job-1'' 0 sample_data
   \<and> writeFile_result env_encode_fails = None
   \<and> encode_result env_encode_fails = Some ''Command failed: ffmpeg -f concat''
   \<and> failed_at 70 ''Command failed: ffmpeg -f concat''
        (job_run env_encode_fails 3 ''job-1'' 0 sample_data)"
proof -
  have a: "which_ok env_ok ''ffmpeg''" "which_ok env_ok ''yt-dlp''"
    by (simp_all add: env_ok_def)
  have b: "which_ok env_mkdtemp_fails ''ffmpeg''" "which_ok env_mkdtemp_fails ''yt-dlp''"
    "mkdtemp_result env_mkdtemp_fails = Inl ''EACCES: permission denied, mkdtemp''"
    by (simp_all add: env_mkdtemp_fails_def env_ok_def)
  have c: "which_ok env_write_fails ''ffmpeg''" "which_ok env_write_fails ''yt-dlp''"
    "mkdtemp_result env_write_fails = Inr ''/tmp/montage-Ab12''"
    "writeFile_result env_write_fails = Some ''ENOSPC: no space left on device, write''"
    by (simp_all add: env_write_fails_def env_ok_def)
  have d: "which_ok env_encode_fails ''ffmpeg''" "which_ok env_encode_fails ''yt-dlp''"
    "mkdtemp_result env_encode_fails = Inr ''/tmp/montage-Ab12''"
    "writeFile_result env_encode_fails = None"
    "encode_result env_encode_fails = Some ''Command failed: ffmpeg -f concat''"
    by (simp_all add: env_encode_fails_def env_ok_def)
  note jc = job_done_sample[OF c(1-3), of "''job-1''" 0]
  note jd = job_done_sample[OF d(1-3), of "''job-1''" 0]
  from fatal_failure_recorded[OF b(1,2), where msg = "''EACCES: permission denied, mkdtemp''"
      and fuel = 3 and jobId = "''job-1''" and now = 0 and d = sample_data]
    fatal_failure_recorded[OF c(1,2), where msg = "''ENOSPC: no space left on device, write''"
      and ws = "''/tmp/montage-Ab12''" and fuel = 3 and jobId = "''job-1''" and now = 0
      and d = sample_data]
    fatal_failure_recorded[OF d(1,2), where msg = "''Command failed: ffmpeg -f concat''"
      and ws = "''/tmp/montage-Ab12''" and fuel = 3 and jobId = "''job-1''" and now = 0
      and d = sample_data]
  show ?thesis using a b c d jc jd by blast
qed


section \<open>Result fields and status\<close>

lemma fields_pending_act: "fields_pending b r \<Longrightarrow> fields_pending b (act a r)"
  by (simp add: fields_pending_def act_def)

lemma fields_pending_progress:
  "fields_pending b r \<Longrightarrow> fields_pending b (set_job (\<lambda>j. j\<lparr>progress := p\<rparr>) r)"
  by (auto simp add: fields_pending_def set_job_def fields_ok_def Let_def)

lemma fields_pending_processing:
  "fields_pending b r \<Longrightarrow>
   fields_pending b (set_job (\<lambda>j. j\<lparr>status := Processing, progress := p\<rparr>) r)"
  by (auto simp add: fields_pending_def set_job_def fields_ok_def Let_def)

lemma fields_ok_on_error:
  "fields_pending b r \<Longrightarrow> (b \<longrightarrow> msg \<noteq> []) \<Longrightarrow>
   list_all (fields_ok b) (snaps (on_error msg r))"
  by (auto simp add: fields_pending_def on_error_def set_job_def act_def fields_ok_def Let_def)

lemma fields_pending_clip_body:
  "fields_pending b r \<Longrightarrow> fields_pending b (clip_body e d ws n i r)"
  by (auto simp add: clip_body_def Let_def fields_pending_act fields_pending_progress[unfolded set_job_def Let_def] set_job_def
      act_def fields_pending_def fields_ok_def
      split: sum.splits option.splits)

lemma fields_pending_after_loop:
  assumes "fields_pending b r"
  shows "fields_pending b (snd (the_run (clip_loop fuel e d ws n i r)))"
  by (rule clip_loop_invariant[where P = "\<lambda>k s. fields_pending b s"])
     (simp_all add: assms fields_pending_clip_body)

lemma fields_ok_finish_montage:
  assumes "fields_pending b r" and "b \<longrightarrow> writeFile_result e \<noteq> Some [] \<and> encode_result e \<noteq> Some []"
  shows "list_all (fields_ok b) (snaps (finish_montage e jobId d ws r))"
proof (cases "writeFile_result e")
  case (Some msg)
  then show ?thesis
    using assms
    by (auto simp add: finish_montage_def Let_def intro!: fields_ok_on_error fields_pending_act
        fields_pending_progress)
next
  case None
  note w = this
  show ?thesis
  proof (cases "encode_result e")
    case (Some msg)
    then show ?thesis
      using assms w
      by (auto simp add: finish_montage_def Let_def intro!: fields_ok_on_error fields_pending_act
          fields_pending_progress)
  next
    case None
    have "fields_pending b (set_job (\<lambda>j. j\<lparr>progress := Fin 90\<rparr>)
        (act (createMontage (path_join ws ''clip_list.txt'')
               (path_join ws (scriptName d @ ''_v01.mp4'')) (targetResolution d)
               (overlayText d) (fontSize_or_default d))
          (set_job (\<lambda>j. j\<lparr>progress := Fin 70\<rparr>)
            (act (ActWriteFile (path_join ws ''clip_list.txt'')
                   (clipListContent (clips (set_job (\<lambda>j. j\<lparr>progress := Fin 60\<rparr>) r))))
              (set_job (\<lambda>j. j\<lparr>progress := Fin 60\<rparr>) r)))))" (is "fields_pending b ?r5")
      using assms(1) by (intro fields_pending_progress fields_pending_act)
    then have "list_all (fields_ok b) (snaps (set_job (\<lambda>j. j\<lparr>status := Completed, progress := Fin 100,
                                         completedAt := Some (clock e),
                                         downloadUrl := Some (''/api/download/'' @ jobId),
                                         outputFile := Some (path_join ws (scriptName d @ ''_v01.mp4''))\<rparr>) ?r5))"
      by (auto simp add: fields_pending_def set_job_def fields_ok_def Let_def path_join_def)
    then show ?thesis
      using w None by (simp add: finish_montage_def Let_def)
  qed
qed

lemma fields_ok_job_run:
  assumes "b \<longrightarrow> messages_ok e"
  shows "list_all (fields_ok b) (snaps (job_run e fuel jobId now d))"
proof -
  let ?j = "new_job jobId now d"
  let ?r0 = "\<lparr>rjob = ?j, snaps = [?j], acts = [], clips = []\<rparr>"
  have p0: "fields_pending b ?r0"
    by (simp add: fields_pending_def fields_ok_def new_job_def)
  show ?thesis
  proof (cases "which_ok e ''ffmpeg'' \<and> which_ok e ''yt-dlp''")
    case False
    then have "job_run e fuel jobId now d = set_job (\<lambda>j. j\<lparr>status := Failed,
                   error := Some ''Missing dependencies: FFmpeg and yt-dlp are required''\<rparr>)
                 (act (ActWhich ''yt-dlp'') (act (ActWhich ''ffmpeg'') ?r0))"
      by (auto simp add: job_run_def pipeline_def commandExists_def Let_def)
    then show ?thesis
      by (simp add: set_job_def act_def fields_ok_def new_job_def Let_def)
  next
    case True
    note deps = this
    let ?r2 = "act ActMkdtemp (set_job (\<lambda>j. j\<lparr>status := Processing, progress := Fin 10\<rparr>)
        (act (ActWhich ''yt-dlp'') (act (ActWhich ''ffmpeg'') ?r0)))"
    have p2: "fields_pending b ?r2"
      using p0 by (intro fields_pending_act fields_pending_processing)
    show ?thesis
    proof (cases "mkdtemp_result e")
      case (Inl msg)
      then have f: "job_run e fuel jobId now d = on_error msg ?r2"
        using deps by (simp add: job_run_def pipeline_def commandExists_def Let_def)
      have "b \<longrightarrow> msg \<noteq> []" using assms Inl by (auto simp add: messages_ok_def)
      from fields_ok_on_error[OF p2 this] show ?thesis unfolding f .
    next
      case (Inr ws)
      let ?l = "clip_loop fuel e d ws (clipsNeeded d) 0 (loop_start ?j)"
      have "loop_start ?j = set_job (\<lambda>j. j\<lparr>progress := Fin 20\<rparr>) ?r2"
        by (simp add: loop_start_def)
      then have "fields_pending b (loop_start ?j)"
        using p2 by (simp add: fields_pending_progress)
      from fields_pending_after_loop[OF this]
      have pl: "fields_pending b (snd (the_run ?l))" .
      have m: "b \<longrightarrow> writeFile_result e \<noteq> Some [] \<and> encode_result e \<noteq> Some []"
        using assms by (simp add: messages_ok_def)
      show ?thesis
      proof (cases "is_done ?l")
        case True
        from job_run_finished(2)[OF _ _ Inr True] deps
        have "job_run e fuel jobId now d = finish_montage e jobId d ws (snd (the_run ?l))"
          by blast
        then show ?thesis using fields_ok_finish_montage[OF pl m] by simp
      next
        case False
        from job_run_unfinished(2)[OF _ _ Inr False] deps
        have "job_run e fuel jobId now d = snd (the_run ?l)" by blast
        then show ?thesis using pl by (simp add: fields_pending_def)
      qed
    qed
  qed
qed

text \<open>
  C2. In every state of a job that the registry ever holds, whatever the tools answer and
  however far the run has got, the output file is set exactly when the status is
  completed, and is then not empty, and so is the download URL; the error is set exactly
  when the status is failed, and it is not empty provided the errors thrown by the
  creation of the workspace, the writing of the manifest and the encoder carry a message
  that is not empty.
\<close>

theorem result_fields_match_status:
  "\<forall>j \<in> set (snaps (job_run e fuel jobId now d)).
      ((\<exists>p. outputFile j = Some p \<and> p \<noteq> []) \<longleftrightarrow> status j = Completed)
    \<and> (outputFile j \<noteq> None \<longleftrightarrow> status j = Completed)
    \<and> (downloadUrl j \<noteq> None \<longleftrightarrow> status j = Completed)
    \<and> (error j \<noteq> None \<longleftrightarrow> status j = Failed)
    \<and> (messages_ok e \<longrightarrow> ((\<exists>m. error j = Some m \<and> m \<noteq> []) \<longleftrightarrow> status j = Failed))"
proof
  fix j
  assume j: "j \<in> set (snaps (job_run e fuel jobId now d))"
  have "fields_ok False j"
    using fields_ok_job_run[of False e fuel jobId now d] j by (simp add: list_all_iff)
  moreover have "messages_ok e \<longrightarrow> fields_ok True j"
    using fields_ok_job_run[of True e fuel jobId now d] j by (simp add: list_all_iff)
  ultimately show "((\<exists>p. outputFile j = Some p \<and> p \<noteq> []) \<longleftrightarrow> status j = Completed)
    \<and> (outputFile j \<noteq> None \<longleftrightarrow> status j = Completed)
    \<and> (downloadUrl j \<noteq> None \<longleftrightarrow> status j = Completed)
    \<and> (error j \<noteq> None \<longleftrightarrow> status j = Failed)
    \<and> (messages_ok e \<longrightarrow> ((\<exists>m. error j = Some m \<and> m \<noteq> []) \<longleftrightarrow> status j = Failed))"
    by (auto simp add: fields_ok_def split: option.splits)
qed

text \<open>
  A run of three clips that completes and has its output file, and a run in which the
  workspace cannot be created, which fails and has its error.
\<close>

theorem result_fields_match_status_witness:
  "rjob (job_run env_ok 3 ''job-1'' 0 sample_data) \<in> set (snaps (job_run env_ok 3 ''job-1'' 0 sample_data))
   \<and> status (rjob (job_run env_ok 3 ''job-1'' 0 sample_data)) = Completed
   \<and> (\<exists>p. outputFile (rjob (job_run env_ok 3 ''job-1'' 0 sample_data)) = Some p \<and> p \<noteq> [])
   \<and> error (rjob (job_run env_ok 3 ''job-1'' 0 sample_data)) = None
   \<and> messages_ok env_mkdtemp_fails
   \<and> rjob (job_run env_mkdtemp_fails 3 ''job-1'' 0 sample_data)
        \<in> set (snaps (job_run env_mkdtemp_fails 3 ''job-1'' 0 sample_data))
   \<and> status (rjob (job_run env_mkdtemp_fails 3 ''job-1'' 0 sample_data)) = Failed
   \<and> (\<exists>m. error (rjob (job_run env_mkdtemp_fails 3 ''job-1'' 0 sample_data)) = Some m \<and> m \<noteq> [])
   \<and> outputFile (rjob (job_run env_mkdtemp_fails 3 ''job-1'' 0 sample_data)) = None"
proof -
  let ?r = "job_run env_ok 3 ''job-1'' 0 sample_data"
  let ?q = "job_run env_mkdtemp_fails 3 ''job-1'' 0 sample_data"
  let ?j = "new_job ''job-1'' 0 sample_data"
  let ?l = "clip_loop 3 env_ok sample_data ''/tmp/montage-Ab12'' (Fin (of_nat 3)) 0 (loop_start ?j)"
  have dn: "is_done ?l"
    using clip_loop_finite[of 3 env_ok sample_data "''/tmp/montage-Ab12''" 3 0 "loop_start ?j"]
    by simp
  note fr = job_run_finished[OF env_ok_reaches_loop, of 3 sample_data "''job-1''" 0,
      unfolded clipsNeeded_sample, OF dn]
  have w: "writeFile_result env_ok = None" "encode_result env_ok = None"
    by (simp_all add: env_ok_def)
  have m1: "rjob ?r \<in> set (snaps ?r)"
    unfolding fr(2)
    using last_snap_finish_montage[of env_ok "''job-1''" sample_data "''/tmp/montage-Ab12''" "snd (the_run ?l)"]
      snaps_finish_montage_nonempty[of env_ok "''job-1''" sample_data "''/tmp/montage-Ab12''" "snd (the_run ?l)"]
      last_in_set by metis
  have s1: "status (rjob ?r) = Completed"
    unfolding fr(2) using w by (rule status_finish_montage)
  have mo: "messages_ok env_mkdtemp_fails"
    by (simp add: messages_ok_def env_mkdtemp_fails_def env_ok_def)
  have q: "rjob ?q \<in> set (snaps ?q)" "status (rjob ?q) = Failed"
    by (simp_all add: job_run_def pipeline_def commandExists_def env_mkdtemp_fails_def env_ok_def
        on_error_def set_job_def act_def Let_def)
  note t1 = bspec[OF result_fields_match_status[of env_ok 3 "''job-1''" 0 sample_data] m1]
  note t2 = bspec[OF result_fields_match_status[of env_mkdtemp_fails 3 "''job-1''" 0 sample_data] q(1)]
  have a: "\<exists>p. outputFile (rjob ?r) = Some p \<and> p \<noteq> []" using t1 s1 by blast
  have b: "error (rjob ?r) = None" using t1 s1 by simp
  have c: "\<exists>m. error (rjob ?q) = Some m \<and> m \<noteq> []" using t2 q(2) mo by blast
  have d: "outputFile (rjob ?q) = None" using t2 q(2) by simp
  show ?thesis using m1 s1 a b mo q c d by blast
qed


section \<open>Progress\<close>

lemma trace_ok_iff:
  "trace_ok p S =
     ((\<forall>j\<in>set S. \<exists>t. progress j = Fin t \<and> 0 \<le> t \<and> t \<le> p
          \<and> ((t = 100) = (status j = Completed)))
      \<and> sorted_wrt (\<lambda>a b. js_le (progress a) (progress b)) S)"
proof -
  have "(case progress j of Fin q \<Rightarrow> 0 \<le> q \<and> q \<le> p \<and> ((q = 100) = (status j = Completed))
           | _ \<Rightarrow> False)
        = (\<exists>t. progress j = Fin t \<and> 0 \<le> t \<and> t \<le> p \<and> ((t = 100) = (status j = Completed)))"
    for j :: job
    by (cases "progress j") auto
  then show ?thesis by (simp add: trace_ok_def list_all_iff)
qed

lemma trace_ok_snoc:
  assumes "trace_ok p S" and "progress j = Fin q" and "p \<le> q" and "0 \<le> q"
    and "(q = 100) = (status j = Completed)"
  shows "trace_ok q (S @ [j])"
proof -
  have a: "\<forall>x\<in>set S. \<exists>t. progress x = Fin t \<and> 0 \<le> t \<and> t \<le> p
      \<and> ((t = 100) = (status x = Completed))"
    and s: "sorted_wrt (\<lambda>a b. js_le (progress a) (progress b)) S"
    using assms(1) by (simp_all add: trace_ok_iff)
  have b: "\<forall>x\<in>set S. js_le (progress x) (progress j)"
    using a assms(2,3) by fastforce
  have c: "\<forall>x\<in>set S. \<exists>t. progress x = Fin t \<and> 0 \<le> t \<and> t \<le> q
      \<and> ((t = 100) = (status x = Completed))"
    using a assms(3) by fastforce
  show ?thesis
    unfolding trace_ok_iff using b c s assms(2,4,5) by (simp add: sorted_wrt_append)
qed

lemma trace_ok_mono: "trace_ok p S \<Longrightarrow> p \<le> q \<Longrightarrow> trace_ok q S"
  unfolding trace_ok_iff by fastforce

lemma run_ok_act: "run_ok p r \<Longrightarrow> run_ok p (act a r)"
  by (simp add: run_ok_def act_def)

lemma run_ok_progress:
  assumes "run_ok p r" and "p \<le> q" and "q < 100"
  shows "run_ok q (set_job (\<lambda>j. j\<lparr>progress := Fin q\<rparr>) r)"
proof -
  have "trace_ok q (snaps r @ [(rjob r)\<lparr>progress := Fin q\<rparr>])"
    using assms by (intro trace_ok_snoc[where p = p]) (auto simp add: run_ok_def)
  then show ?thesis using assms by (simp add: run_ok_def set_job_def Let_def)
qed

lemma run_ok_processing:
  assumes "run_ok p r" and "p \<le> q" and "q < 100"
  shows "run_ok q (set_job (\<lambda>j. j\<lparr>status := Processing, progress := Fin q\<rparr>) r)"
proof -
  have "trace_ok q (snaps r @ [(rjob r)\<lparr>status := Processing, progress := Fin q\<rparr>])"
    using assms by (intro trace_ok_snoc[where p = p]) (auto simp add: run_ok_def)
  then show ?thesis using assms by (simp add: run_ok_def set_job_def Let_def)
qed

lemma trace_ok_on_error:
  assumes "run_ok p r"
  shows "trace_ok p (snaps (on_error msg r))"
proof -
  have "trace_ok p (snaps r @ [(rjob r)\<lparr>status := Failed, error := Some msg\<rparr>])"
    using assms by (intro trace_ok_snoc[where p = p]) (auto simp add: run_ok_def)
  then show ?thesis by (simp add: on_error_def set_job_def act_def Let_def)
qed

lemma trace_ok_completed:
  assumes "run_ok p r"
  shows "trace_ok 100 (snaps (set_job (\<lambda>j. j\<lparr>status := Completed, progress := Fin 100,
            completedAt := c, downloadUrl := u, outputFile := f\<rparr>) r))"
proof -
  have "trace_ok 100 (snaps r @ [(rjob r)\<lparr>status := Completed, progress := Fin 100,
            completedAt := c, downloadUrl := u, outputFile := f\<rparr>])"
    using assms by (intro trace_ok_snoc[where p = p]) (auto simp add: run_ok_def)
  then show ?thesis by (simp add: set_job_def Let_def)
qed

text \<open>
  The progress inside the loop, \<^verbatim>\<open>20 + (i / clipsNeeded) * 40\<close>, is computed in three
  roundings. Each of them is monotone and leaves 1, 20, 40 and 60 as they are, so the
  result lies between 20 and 60 and does not decrease with \<open>i\<close>.
\<close>

lemma loop_progress_finite:
  assumes "of_nat k < m"
  shows "loop_progress k (Fin m) = Fin (round53 (20 + round53 (round53 (of_nat k / m) * 40)))"
    and "20 \<le> round53 (20 + round53 (round53 (of_nat k / m) * 40))"
    and "round53 (20 + round53 (round53 (of_nat k / m) * 40)) \<le> 60"
proof -
  let ?u = "round53 (of_nat k / m)"
  let ?v = "round53 (?u * 40)"
  have m: "0 < m" using assms by (simp add: order_le_less_trans[of 0 "of_nat k" m])
  have r1: "round53 1 = 1" and r20: "round53 20 = 20" and r40: "round53 40 = 40"
    and r60: "round53 60 = 60"
    using round53_int[of 1] round53_int[of 20] round53_int[of 40] round53_int[of 60] by simp_all
  have q1: "of_nat k / m \<le> 1" using assms m by simp
  have d: "js_div (Fin (of_nat k)) (Fin m) = Fin ?u"
    using m q1 r1 by (simp add: js_div_pos fl_signed_bounded[of _ 1])
  have u1: "?u \<le> 1" using q1 r1 by (rule round53_le)
  have "?u * 40 \<le> 1 * 40" using u1 by (intro mult_right_mono) simp_all
  then have q2: "?u * 40 \<le> 40" by simp
  have t: "js_mul (Fin ?u) (Fin 40) = Fin ?v"
    using q2 r40 by (simp add: js_mul_nonneg fl_signed_bounded[of _ 40])
  have v40: "?v \<le> 40" using q2 r40 by (rule round53_le)
  then have q3: "20 + ?v \<le> 60" by simp
  have "(0::rat) \<le> 20 + ?v" using round53_nonneg[of "?u * 40"] by linarith
  then have s: "js_add (Fin 20) (Fin ?v) = Fin (round53 (20 + ?v))"
    using q3 r60 by (simp add: js_add_Fin fl_nonneg fl_signed_bounded[of _ 60])
  show "loop_progress k (Fin m) = Fin (round53 (20 + ?v))"
    unfolding loop_progress_def d t s ..
  have "20 \<le> 20 + ?v" using round53_nonneg[of "?u * 40"] by linarith
  from round53_mono[OF this] show "20 \<le> round53 (20 + ?v)" unfolding r20 .
  show "round53 (20 + ?v) \<le> 60" using q3 r60 by (rule round53_le)
qed

lemma loop_progress_unbounded: "loop_progress k PInf = Fin 20"
proof -
  have "fl 20 = Fin 20" using fl_int[of 20] by simp
  moreover have "fl_signed False 0 = Fin 0" using fl_signed_nat[of 0] by simp
  ultimately show ?thesis
    by (simp add: loop_progress_def js_div_def zero_of_def js_mul_Fin js_add_Fin)
qed

lemma loop_progress_level:
  assumes "js_lt (Fin (of_nat k)) n"
  shows "loop_progress k n = Fin (loop_level n k)" and "20 \<le> loop_level n k"
    and "loop_level n k \<le> 60"
    and "js_lt (Fin (of_nat (Suc k))) n \<Longrightarrow> loop_level n k \<le> loop_level n (Suc k)"
    and "js_lt (Fin 0) n"
proof -
  have c: "(\<exists>m. n = Fin m \<and> of_nat k < m) \<or> n = PInf"
    using assms by (cases n) auto
  show "loop_progress k n = Fin (loop_level n k)"
    using c loop_progress_finite(1)[of k] by (auto simp add: loop_level_def loop_progress_unbounded)
  show "20 \<le> loop_level n k"
    using c loop_progress_finite(1,2)[of k] by (auto simp add: loop_level_def loop_progress_unbounded)
  show "loop_level n k \<le> 60"
    using c loop_progress_finite(1,3)[of k] by (auto simp add: loop_level_def loop_progress_unbounded)
  show "js_lt (Fin 0) n"
    using c by (auto simp add: order_le_less_trans[of 0 "of_nat k"])
  show "loop_level n k \<le> loop_level n (Suc k)" if g: "js_lt (Fin (of_nat (Suc k))) n"
  proof (cases n)
    case (Fin m)
    then have k1: "of_nat (Suc k) < m" using g by (simp del: of_nat_Suc)
    then have k0: "of_nat k < m" by simp
    then have m: "0 < m" by (simp add: order_le_less_trans[of 0 "of_nat k" m])
    have "(of_nat k :: rat) \<le> of_nat (Suc k)" by simp
    then have "of_nat k / m \<le> of_nat (Suc k) / m" using m by (intro divide_right_mono) simp_all
    then have "round53 (of_nat k / m) \<le> round53 (of_nat (Suc k) / m)" by (rule round53_mono)
    then have "round53 (of_nat k / m) * 40 \<le> round53 (of_nat (Suc k) / m) * 40"
      by (intro mult_right_mono) simp_all
    then have "round53 (round53 (of_nat k / m) * 40) \<le> round53 (round53 (of_nat (Suc k) / m) * 40)"
      by (rule round53_mono)
    then have "20 + round53 (round53 (of_nat k / m) * 40)
        \<le> 20 + round53 (round53 (of_nat (Suc k) / m) * 40)" by simp
    then have "round53 (20 + round53 (round53 (of_nat k / m) * 40))
        \<le> round53 (20 + round53 (round53 (of_nat (Suc k) / m) * 40))" by (rule round53_mono)
    then show ?thesis
      unfolding loop_level_def Fin loop_progress_finite(1)[OF k0] loop_progress_finite(1)[OF k1]
      by (simp only: val.simps)
  qed (use assms in \<open>simp_all add: loop_level_def loop_progress_unbounded\<close>)
qed

lemma loop_level_zero: "js_lt (Fin 0) n \<Longrightarrow> loop_level n 0 = 20"
proof -
  assume a: "js_lt (Fin 0) n"
  have r: "round53 20 = 20" using round53_int[of 20] by simp
  have "(\<exists>m. n = Fin m \<and> 0 < m) \<or> n = PInf" using a by (cases n) auto
  then show ?thesis
    using loop_progress_finite(1)[of 0] by (auto simp add: loop_level_def loop_progress_unbounded r)
qed

lemma run_ok_clip_body:
  assumes "run_ok p r" and "p \<le> loop_level n k" and "js_lt (Fin (of_nat k)) n"
  shows "\<exists>q. run_ok q (clip_body e d ws n k r) \<and> q \<le> 60
           \<and> (js_lt (Fin (of_nat (Suc k))) n \<longrightarrow> q \<le> loop_level n (Suc k))"
proof -
  note lv = loop_progress_level[OF assms(3)]
  have p60: "p \<le> 60" using assms(2) lv(3) by simp
  show ?thesis
  proof (cases "clip_ok e k")
    case False
    then have "snaps (clip_body e d ws n k r) = snaps r" "rjob (clip_body e d ws n k r) = rjob r"
      by (auto simp add: clip_body_def clip_ok_def getVideoDuration_def act_def Let_def
          split: sum.splits option.splits)
    then have "run_ok p (clip_body e d ws n k r)"
      using assms(1) by (simp add: run_ok_def)
    then show ?thesis using assms(2) lv(4) p60 by (intro exI[of _ p]) (auto simp del: of_nat_Suc)
  next
    case True
    then obtain out where o: "duration_result e k = Inr out" and dl: "download_result e k = None"
      by (auto simp add: clip_ok_def split: sum.splits)
    let ?r2 = "act (ActDownload (first_url d)
                 (startTime (random_result e k) (maxStart (parseDuration (js_trim out)) (interval d)))
                 (interval d) (clipFile ws k)) (act (ActProbe (first_url d)) r)"
    have f: "clip_body e d ws n k r
        = set_job (\<lambda>j. j\<lparr>progress := Fin (loop_level n k)\<rparr>)
            (?r2\<lparr>clips := clips ?r2 @ [clipFile ws k]\<rparr>)"
      using o dl by (simp add: clip_body_def getVideoDuration_def Let_def lv(1))
    have "run_ok p (?r2\<lparr>clips := clips ?r2 @ [clipFile ws k]\<rparr>)"
      using assms(1) by (simp add: run_ok_def act_def)
    from run_ok_progress[OF this assms(2)] lv(3)
    have "run_ok (loop_level n k) (clip_body e d ws n k r)" unfolding f by simp
    then show ?thesis using lv(3,4) by (intro exI[of _ "loop_level n k"]) (auto simp del: of_nat_Suc)
  qed
qed

lemma run_ok_after_loop:
  assumes "run_ok 20 r"
  shows "\<exists>q. run_ok q (snd (the_run (clip_loop fuel e d ws n 0 r))) \<and> q \<le> 60"
proof -
  let ?P = "\<lambda>k s. \<exists>q. run_ok q s \<and> q \<le> 60 \<and> (js_lt (Fin (of_nat k)) n \<longrightarrow> q \<le> loop_level n k)"
  have "?P (fst (the_run (clip_loop fuel e d ws n 0 r))) (snd (the_run (clip_loop fuel e d ws n 0 r)))"
  proof (rule clip_loop_invariant[where P = ?P])
    show "?P 0 r" using assms by (intro exI[of _ 20]) (simp add: loop_level_zero)
  next
    fix k and s :: run
    assume "?P k s" and g: "js_lt (Fin (of_nat k)) n"
    then obtain q where q: "run_ok q s" "q \<le> loop_level n k" by blast
    from run_ok_clip_body[OF q g]
    show "?P (Suc k) (clip_body e d ws n k s)" by blast
  qed
  then show ?thesis by blast
qed

lemma trace_ok_finish_montage:
  assumes "run_ok p r" and "p \<le> 60"
  shows "trace_ok 100 (snaps (finish_montage e jobId d ws r))"
proof -
  let ?r1 = "set_job (\<lambda>j. j\<lparr>progress := Fin 60\<rparr>) r"
  let ?r2 = "act (ActWriteFile (path_join ws ''clip_list.txt'') (clipListContent (clips ?r1))) ?r1"
  let ?r3 = "set_job (\<lambda>j. j\<lparr>progress := Fin 70\<rparr>) ?r2"
  let ?r4 = "act (createMontage (path_join ws ''clip_list.txt'')
               (path_join ws (scriptName d @ ''_v01.mp4'')) (targetResolution d)
               (overlayText d) (fontSize_or_default d)) ?r3"
  let ?r5 = "set_job (\<lambda>j. j\<lparr>progress := Fin 90\<rparr>) ?r4"
  have r1: "run_ok 60 ?r1" using run_ok_progress[OF assms] by simp
  then have r2: "run_ok 60 ?r2" by (rule run_ok_act)
  then have r3: "run_ok 70 ?r3" using run_ok_progress[OF r2, of 70] by simp
  then have r4: "run_ok 70 ?r4" by (rule run_ok_act)
  then have r5: "run_ok 90 ?r5" using run_ok_progress[OF r4, of 90] by simp
  show ?thesis
  proof (cases "writeFile_result e")
    case (Some msg)
    then have "finish_montage e jobId d ws r = on_error msg ?r2"
      by (simp add: finish_montage_def Let_def)
    then show ?thesis using trace_ok_mono[OF trace_ok_on_error[OF r2, of msg], of 100] by simp
  next
    case None
    note w = this
    show ?thesis
    proof (cases "encode_result e")
      case (Some msg)
      then have "finish_montage e jobId d ws r = on_error msg ?r4"
        using w by (simp add: finish_montage_def Let_def)
      then show ?thesis using trace_ok_mono[OF trace_ok_on_error[OF r4, of msg], of 100] by simp
    next
      case None
      then have "finish_montage e jobId d ws r =
          set_job (\<lambda>j. j\<lparr>status := Completed, progress := Fin 100,
                          completedAt := Some (clock e),
                          downloadUrl := Some (''/api/download/'' @ jobId),
                          outputFile := Some (path_join ws (scriptName d @ ''_v01.mp4''))\<rparr>) ?r5"
        using w by (simp add: finish_montage_def Let_def)
      then show ?thesis using trace_ok_completed[OF r5] by simp
    qed
  qed
qed

lemma trace_ok_job_run: "trace_ok 100 (snaps (job_run e fuel jobId now d))"
proof -
  let ?j = "new_job jobId now d"
  let ?r0 = "\<lparr>rjob = ?j, snaps = [?j], acts = [], clips = []\<rparr>"
  let ?r1 = "act (ActWhich ''yt-dlp'') (act (ActWhich ''ffmpeg'') ?r0)"
  have p0: "run_ok 0 ?r0"
    by (simp add: run_ok_def trace_ok_def new_job_def)
  then have p1: "run_ok 0 ?r1" by (intro run_ok_act)
  show ?thesis
  proof (cases "which_ok e ''ffmpeg'' \<and> which_ok e ''yt-dlp''")
    case False
    then have "job_run e fuel jobId now d = set_job (\<lambda>j. j\<lparr>status := Failed,
                   error := Some ''Missing dependencies: FFmpeg and yt-dlp are required''\<rparr>) ?r1"
      by (auto simp add: job_run_def pipeline_def commandExists_def Let_def)
    then show ?thesis
      by (simp add: set_job_def act_def trace_ok_def new_job_def Let_def)
  next
    case True
    note deps = this
    let ?r2 = "act ActMkdtemp (set_job (\<lambda>j. j\<lparr>status := Processing, progress := Fin 10\<rparr>) ?r1)"
    have p2: "run_ok 10 ?r2"
      using run_ok_processing[OF p1, of 10] by (simp add: run_ok_act)
    show ?thesis
    proof (cases "mkdtemp_result e")
      case (Inl msg)
      then have f: "job_run e fuel jobId now d = on_error msg ?r2"
        using deps by (simp add: job_run_def pipeline_def commandExists_def Let_def)
      show ?thesis unfolding f using trace_ok_mono[OF trace_ok_on_error[OF p2, of msg], of 100] by simp
    next
      case (Inr ws)
      let ?l = "clip_loop fuel e d ws (clipsNeeded d) 0 (loop_start ?j)"
      have "loop_start ?j = set_job (\<lambda>j. j\<lparr>progress := Fin 20\<rparr>) ?r2"
        by (simp add: loop_start_def)
      then have "run_ok 20 (loop_start ?j)"
        using run_ok_progress[OF p2, of 20] by simp
      from run_ok_after_loop[OF this]
      obtain q where q: "run_ok q (snd (the_run ?l))" "q \<le> 60" by blast
      show ?thesis
      proof (cases "is_done ?l")
        case True
        from job_run_finished(2)[OF _ _ Inr True] deps
        have "job_run e fuel jobId now d = finish_montage e jobId d ws (snd (the_run ?l))"
          by blast
        then show ?thesis using trace_ok_finish_montage[OF q] by simp
      next
        case False
        from job_run_unfinished(2)[OF _ _ Inr False] deps
        have "job_run e fuel jobId now d = snd (the_run ?l)" by blast
        moreover have "trace_ok q (snaps (snd (the_run ?l)))" using q(1) by (simp add: run_ok_def)
        ultimately show ?thesis using trace_ok_mono[of q _ 100] q(2) by simp
      qed
    qed
  qed
qed

text \<open>
  C1, as the code has it. In every state of a job that the registry ever holds, the
  progress is a finite number between 0 and 100, which is 100 exactly when the status is
  completed, and along the sequence of stored states the progress never decreases (the
  failed state included, since a failure leaves the progress as it is). The progress need
  not be an integer: inside the clip loop it is \<^verbatim>\<open>20 + (i / clipsNeeded) * 40\<close>.
\<close>

theorem progress_invariant:
  "(\<forall>j \<in> set (snaps (job_run e fuel jobId now d)).
      \<exists>p. progress j = Fin p \<and> 0 \<le> p \<and> p \<le> 100 \<and> (p = 100 \<longleftrightarrow> status j = Completed))
   \<and> sorted_wrt (\<lambda>a b. js_le (progress a) (progress b)) (snaps (job_run e fuel jobId now d))"
  using trace_ok_job_run[of e fuel jobId now d] unfolding trace_ok_iff
  by blast

lemma fifth_state:
  "job_done env_ok 16 ''job-1'' 0 data_sixteen
   \<and> 4 < length (snaps (job_run env_ok 16 ''job-1'' 0 data_sixteen))
   \<and> progress (snaps (job_run env_ok 16 ''job-1'' 0 data_sixteen) ! 4) = Fin (45 / 2)
   \<and> status (snaps (job_run env_ok 16 ''job-1'' 0 data_sixteen) ! 4) = Processing"
proof -
  let ?j = "new_job ''job-1'' 0 data_sixteen"
  let ?l = "clip_loop 16 env_ok data_sixteen ''/tmp/montage-Ab12'' (Fin (of_nat 16)) 0 (loop_start ?j)"
  note fin = clip_loop_finite[of 16 env_ok data_sixteen "''/tmp/montage-Ab12''" 16 0 "loop_start ?j"]
  have dn: "is_done ?l" and ix: "fst (the_run ?l) = 16"
    using fin by simp_all
  note fr = job_run_finished[OF env_ok_reaches_loop, of 16 data_sixteen "''job-1''" 0,
      unfolded clipsNeeded_sixteen, OF dn]
  have f: "filter (clip_ok env_ok) [0..<16] = [0..<16]"
    by (simp add: clip_ok_env_ok)
  have s: "snaps (snd (the_run ?l))
      = snaps (loop_start ?j) @ map (\<lambda>k. (rjob (loop_start ?j))\<lparr>progress := loop_progress k (Fin (of_nat 16))\<rparr>) [0..<16]"
    using snaps_after_loop[of 16 env_ok data_sixteen "''/tmp/montage-Ab12''" "Fin (of_nat 16)" "loop_start ?j"]
    unfolding ix f .
  obtain tl where tl: "snaps (job_run env_ok 16 ''job-1'' 0 data_sixteen) = snaps (snd (the_run ?l)) @ tl"
    unfolding fr(2) using snaps_finish_montage by blast
  have len: "4 < length (snaps (snd (the_run ?l)))"
    unfolding s by (simp add: loop_start_simps)
  have n4: "snaps (snd (the_run ?l)) ! 4
      = (rjob (loop_start ?j))\<lparr>progress := loop_progress 1 (Fin (of_nat 16))\<rparr>"
    unfolding s by (simp add: loop_start_simps nth_append)
  have "round53 (of_int 1 * 2 powi (- 4)) = of_int 1 * 2 powi (- 4)"
    and "round53 (of_int 5 * 2 powi (- 1)) = of_int 5 * 2 powi (- 1)"
    and "round53 (of_int 45 * 2 powi (- 1)) = of_int 45 * 2 powi (- 1)"
    by (rule round53_exact; simp)+
  then have rs: "round53 (1 / 16) = 1 / 16" "round53 (5 / 2) = 5 / 2" "round53 (45 / 2) = 45 / 2"
    by (simp_all add: power_int_minus)
  have lp: "loop_progress 1 (Fin (of_nat 16)) = Fin (45 / 2)"
    using loop_progress_finite(1)[of 1 16] by (simp add: rs)
  show ?thesis
    unfolding tl using fr(1) len n4 lp
    by (simp add: nth_append loop_start_simps)
qed

text \<open>
  A run of 16 clips that all succeed: the state stored fifth is one of processing, with a
  progress below 100, and the progress never decreases along the run.
\<close>

theorem progress_invariant_witness:
  "snaps (job_run env_ok 16 ''job-1'' 0 data_sixteen) ! 4
      \<in> set (snaps (job_run env_ok 16 ''job-1'' 0 data_sixteen))
   \<and> (\<exists>p. progress (snaps (job_run env_ok 16 ''job-1'' 0 data_sixteen) ! 4) = Fin p
          \<and> 0 \<le> p \<and> p \<le> 100 \<and> p \<noteq> 100)
   \<and> status (snaps (job_run env_ok 16 ''job-1'' 0 data_sixteen) ! 4) \<noteq> Completed
   \<and> sorted_wrt (\<lambda>a b. js_le (progress a) (progress b))
        (snaps (job_run env_ok 16 ''job-1'' 0 data_sixteen))"
proof -
  let ?S = "snaps (job_run env_ok 16 ''job-1'' 0 data_sixteen)"
  have m: "?S ! 4 \<in> set ?S" using fifth_state by simp
  have st: "status (?S ! 4) \<noteq> Completed" using fifth_state by simp
  note t = progress_invariant[of env_ok 16 "''job-1''" 0 data_sixteen]
  from bspec[OF conjunct1[OF t] m] st
  have "\<exists>p. progress (?S ! 4) = Fin p \<and> 0 \<le> p \<and> p \<le> 100 \<and> p \<noteq> 100" by blast
  then show ?thesis using m st conjunct2[OF t] by blast
qed

text \<open>
  C1 as stated fails: the progress is not always an integer. With
  \<^verbatim>\<open>montageLength = 160\<close> and \<^verbatim>\<open>interval = 10\<close> there are 16 clips, and when the second
  one is done the progress stored is \<^verbatim>\<open>20 + (1 / 16) * 40\<close>, which is 22.5.
\<close>

theorem progress_not_integer:
  "job_done env_ok 16 ''job-1'' 0 data_sixteen
   \<and> 4 < length (snaps (job_run env_ok 16 ''job-1'' 0 data_sixteen))
   \<and> progress (snaps (job_run env_ok 16 ''job-1'' 0 data_sixteen) ! 4) = Fin (45 / 2)
   \<and> \<not> js_is_integer (progress (snaps (job_run env_ok 16 ''job-1'' 0 data_sixteen) ! 4))"
proof -
  have "\<lfloor>(45::rat) / 2\<rfloor> = 22" by (simp add: floor_eq_iff)
  then have "\<not> js_is_integer (Fin (45 / 2))" by simp
  then show ?thesis using fifth_state by simp
qed

end
